theory Spec2Isabelle
  imports Complex_Main "HOL-Library.Word" "HOL-Library.Multiset"
    "HOL-Library.Char_ord" "HOL-Library.List_Lexorder"
begin

section \<open>Python primitives used by the source\<close>

text \<open>
  The exceptions the modelled code can raise: \<open>ValueError\<close> (\<open>range()\<close> with step 0,
  a numpy assignment whose value cannot be broadcast to the target region),
  \<open>IndexError\<close> (\<open>indices[i]\<close> out of range), \<open>FileNotFoundError\<close>
  (\<open>shutil.rmtree\<close> of a directory that does not exist) and \<open>cv2.error\<close>
  (\<open>cv2.imwrite\<close> of an empty image).
\<close>

datatype py_error = ValueError | IndexError | FileNotFoundError | Cv2Error

text \<open>
  \<open>len(range(start, stop, step))\<close> as CPython computes it, and \<open>list(range(...))\<close>:
  the elements \<open>start + k * step\<close> for \<open>k < len\<close>; a step of 0 raises \<open>ValueError\<close>.
\<close>

definition range_len :: "int \<Rightarrow> int \<Rightarrow> int \<Rightarrow> nat" where
  "range_len start stop step =
     (if 0 < step then (if start < stop then nat ((stop - start - 1) div step + 1) else 0)
      else (if stop < start then nat ((start - stop - 1) div (- step) + 1) else 0))"

definition py_range :: "int \<Rightarrow> int \<Rightarrow> int \<Rightarrow> py_error + int list" where
  "py_range start stop step =
     (if step = 0 then Inl ValueError
      else Inr (map (\<lambda>k. start + int k * step) [0..<range_len start stop step]))"

text \<open>
  \<open>slice(start, stop).indices(n)\<close> for step 1: a negative bound counts from the end,
  both bounds are clipped to \<open>[0, n]\<close>. The result is the first selected index and the
  number of selected indices.
\<close>

definition clip_index :: "int \<Rightarrow> nat \<Rightarrow> int" where
  "clip_index i n = (if i < 0 then max (i + int n) 0 else min i (int n))"

definition slice_bounds :: "int \<Rightarrow> int \<Rightarrow> nat \<Rightarrow> nat \<times> nat" where
  "slice_bounds start stop n =
     (nat (clip_index start n), nat (clip_index stop n - clip_index start n))"

text \<open>\<open>str(n)\<close> for a non-negative integer: its decimal digits, no padding.\<close>

definition digit_char :: "nat \<Rightarrow> char" where
  "digit_char d = ''0123456789'' ! d"

fun str_nat :: "nat \<Rightarrow> string" where
  "str_nat n = (if n < 10 then [digit_char n] else str_nat (n div 10) @ [digit_char (n mod 10)])"

declare str_nat.simps [simp del]

section \<open>Arrays\<close>

text \<open>
  A three-dimensional numpy array of dtype \<open>uint8\<close>: its shape
  \<open>(height, width, depth)\<close> and its elements by index. Only the elements inside the
  shape are meaningful, so two arrays are compared by \<open>array_eq\<close>.
\<close>

type_synonym uint8 = "8 word"

record ndarray =
  shape :: "nat \<times> nat \<times> nat"
  item :: "nat \<Rightarrow> nat \<Rightarrow> nat \<Rightarrow> uint8"

definition array_eq :: "ndarray \<Rightarrow> ndarray \<Rightarrow> bool" where
  "array_eq a b =
     (shape a = shape b \<and>
      (case shape a of (h, w, d) \<Rightarrow>
         \<forall>i < h. \<forall>j < w. \<forall>k < d. item a i j k = item b i j k))"

text \<open>\<open>np.zeros(shape, dtype=np.uint8)\<close>\<close>

definition zeros :: "nat \<times> nat \<times> nat \<Rightarrow> ndarray" where
  "zeros shp = \<lparr>shape = shp, item = (\<lambda>i j k. 0)\<rparr>"

text \<open>An offset \<open>(yStart, yEnd, xStart, xEnd)\<close>, an element of \<open>indices\<close>.\<close>

type_synonym offset = "int \<times> int \<times> int \<times> int"

text \<open>\<open>data[(slice(y0, y1), slice(x0, x1))]\<close>: basic slicing of the first two axes.\<close>

definition getslice :: "ndarray \<Rightarrow> offset \<Rightarrow> ndarray" where
  "getslice data off =
     (case off of (y0, y1, x0, x1) \<Rightarrow>
      case shape data of (h, w, d) \<Rightarrow>
      case slice_bounds y0 y1 h of (r0, nr) \<Rightarrow>
      case slice_bounds x0 x1 w of (c0, nc) \<Rightarrow>
        \<lparr>shape = (nr, nc, d), item = (\<lambda>i j k. item data (r0 + i) (c0 + j) k)\<rparr>)"

text \<open>
  numpy's broadcasting of a three-dimensional value to a three-dimensional target:
  every axis of the value has the target's length, or length 1.
\<close>

definition broadcastable :: "nat \<times> nat \<times> nat \<Rightarrow> nat \<times> nat \<times> nat \<Rightarrow> bool" where
  "broadcastable src dst =
     (case src of (h1, w1, d1) \<Rightarrow> case dst of (h2, w2, d2) \<Rightarrow>
        (h1 = h2 \<or> h1 = 1) \<and> (w1 = w2 \<or> w1 = 1) \<and> (d1 = d2 \<or> d1 = 1))"

text \<open>
  \<open>buf[y0:y1, x0:x1] = y\<close>: the region is the one basic slicing selects; \<open>y\<close> is
  broadcast to the region's shape, and numpy raises \<open>ValueError\<close> when it cannot be.
\<close>

definition region_shape :: "nat \<times> nat \<times> nat \<Rightarrow> offset \<Rightarrow> nat \<times> nat \<times> nat" where
  "region_shape shp off =
     (case off of (y0, y1, x0, x1) \<Rightarrow> case shp of (h, w, d) \<Rightarrow>
        (snd (slice_bounds y0 y1 h), snd (slice_bounds x0 x1 w), d))"

definition setslice :: "ndarray \<Rightarrow> offset \<Rightarrow> ndarray \<Rightarrow> py_error + ndarray" where
  "setslice buf off y =
     (case off of (y0, y1, x0, x1) \<Rightarrow>
      case shape buf of (h, w, d) \<Rightarrow>
      case slice_bounds y0 y1 h of (r0, nr) \<Rightarrow>
      case slice_bounds x0 x1 w of (c0, nc) \<Rightarrow>
      case shape y of (hy, wy, dy) \<Rightarrow>
        if broadcastable (hy, wy, dy) (nr, nc, d)
        then Inr (buf\<lparr>item := (\<lambda>i j k.
               if r0 \<le> i \<and> i < r0 + nr \<and> c0 \<le> j \<and> j < c0 + nc \<and> k < d
               then item y (if hy = 1 then 0 else i - r0) (if wy = 1 then 0 else j - c0)
                      (if dy = 1 then 0 else k)
               else item buf i j k)\<rparr>)
        else Inl ValueError)"

section \<open>The tiler: \<open>EMPatches_Effi_Seg_Inference.extract_patches\<close>\<close>

text \<open>
  Lines 56 to 59: the window size per axis, in the order \<open>(X, Y, Z)\<close> of the source.
\<close>

definition window_sizes :: "nat \<times> nat \<times> nat \<Rightarrow> int \<Rightarrow> int \<times> int \<times> int" where
  "window_sizes shp patchsize =
     (case shp of (height, width, depth) \<Rightarrow>
        let maxWindowSize = patchsize in
        (min maxWindowSize (int width), min maxWindowSize (int height),
         min maxWindowSize (int depth)))"

text \<open>
  Lines 61 to 74: the step size per axis. \<open>stride\<close> is tested first, then \<open>overlap\<close>.
  A finite float is the rational number it denotes, and the product
  \<open>windowSize * overlapPercent\<close> is taken exactly. The floating point product is
  rounded, so its floor can differ from the exact one by 1; for a fraction in
  \<open>[0, 1)\<close> the step size lies between 1 and the window size either way.
\<close>

definition step_sizes :: "int \<times> int \<times> int \<Rightarrow> rat option \<Rightarrow> int option \<Rightarrow> int \<times> int \<times> int" where
  "step_sizes ws overlap stride =
     (case ws of (windowSizeX, windowSizeY, windowSizeZ) \<Rightarrow>
       (case stride of
          Some s \<Rightarrow> (s, s, s)
        | None \<Rightarrow>
           (case overlap of
              Some overlapPercent \<Rightarrow>
                (windowSizeX - \<lfloor>of_int windowSizeX * overlapPercent\<rfloor>,
                 windowSizeY - \<lfloor>of_int windowSizeY * overlapPercent\<rfloor>,
                 windowSizeZ - \<lfloor>of_int windowSizeZ * overlapPercent\<rfloor>)
            | None \<Rightarrow> (1, 1, 1))))"

text \<open>
  Lines 77 to 86, for one axis: \<open>list(range(0, last + 1, stepSize))\<close>, to which
  \<open>last\<close> is appended when the list is empty or does not end with it.
\<close>

definition append_last :: "int list \<Rightarrow> int \<Rightarrow> int list" where
  "append_last offs lst = (if length offs = 0 \<or> last offs \<noteq> lst then offs @ [lst] else offs)"

definition axis_offsets :: "int \<Rightarrow> int \<Rightarrow> py_error + int list" where
  "axis_offsets lst stepSize =
     (case py_range 0 (lst + 1) stepSize of
        Inl e \<Rightarrow> Inl e
      | Inr offs \<Rightarrow> Inr (append_last offs lst))"

text \<open>
  Lines 54 to 86: \<open>(xOffsets, yOffsets, zOffsets)\<close>. The three ranges are built
  before any append; the appends cannot fail, so taking each axis in turn raises the
  same error in the same cases.
\<close>

definition start_offsets ::
  "nat \<times> nat \<times> nat \<Rightarrow> int \<Rightarrow> rat option \<Rightarrow> int option \<Rightarrow> py_error + (int list \<times> int list \<times> int list)" where
  "start_offsets shp patchsize overlap stride =
     (case shp of (height, width, depth) \<Rightarrow>
     (case window_sizes shp patchsize of (windowSizeX, windowSizeY, windowSizeZ) \<Rightarrow>
     (case step_sizes (windowSizeX, windowSizeY, windowSizeZ) overlap stride of
        (stepSizeX, stepSizeY, stepSizeZ) \<Rightarrow>
     (case axis_offsets (int width - windowSizeX) stepSizeX of
        Inl e \<Rightarrow> Inl e
      | Inr xOffsets \<Rightarrow>
     (case axis_offsets (int height - windowSizeY) stepSizeY of
        Inl e \<Rightarrow> Inl e
      | Inr yOffsets \<Rightarrow>
     (case axis_offsets (int depth - windowSizeZ) stepSizeZ of
        Inl e \<Rightarrow> Inl e
      | Inr zOffsets \<Rightarrow> Inr (xOffsets, yOffsets, zOffsets)))))))"

text \<open>
  Line 93: the file name of a patch, relative to the temporary directory.
\<close>

definition patch_name :: "nat \<Rightarrow> string" where
  "patch_name patch_index = ''patch_'' @ str_nat patch_index @ ''.png''"

text \<open>
  Line 94, \<open>cv2.imwrite(patch_path, img)\<close>. OpenCV asserts that the image is not empty
  and raises \<open>cv2.error\<close> otherwise; an array is empty when one of its dimensions
  is 0. Any other image is stored unchanged under its name. An unsupported number of
  channels and a path that cannot be written are not part of the model.
\<close>

definition empty_image :: "ndarray \<Rightarrow> bool" where
  "empty_image img = (case shape img of (h, w, d) \<Rightarrow> h = 0 \<or> w = 0 \<or> d = 0)"

definition imwrite ::
  "string \<Rightarrow> ndarray \<Rightarrow> (string \<times> ndarray) list \<Rightarrow> py_error + (string \<times> ndarray) list" where
  "imwrite path img files = (if empty_image img then Inl Cv2Error else Inr (files @ [(path, img)]))"

text \<open>
  Lines 88 to 97: the two nested loops. The loop state is \<open>patch_index\<close>, the files
  written so far (name and content, in the order written) and \<open>indices\<close>. The patch
  is written (line 94) before its offset is appended (line 97), so an exception of
  \<open>cv2.imwrite\<close> ends the call.
\<close>

type_synonym loop_state = "nat \<times> (string \<times> ndarray) list \<times> offset list"

fun inner_loop ::
  "ndarray \<Rightarrow> int \<Rightarrow> int \<Rightarrow> int \<Rightarrow> int list \<Rightarrow> loop_state \<Rightarrow> py_error + loop_state" where
  "inner_loop data windowSizeY windowSizeX xOffset [] st = Inr st"
| "inner_loop data windowSizeY windowSizeX xOffset (yOffset # yOffsets) (patch_index, files, indices) =
     (case imwrite (patch_name patch_index)
             (getslice data (yOffset, yOffset + windowSizeY, xOffset, xOffset + windowSizeX)) files of
        Inl e \<Rightarrow> Inl e
      | Inr files' \<Rightarrow>
          inner_loop data windowSizeY windowSizeX xOffset yOffsets
            (patch_index + 1, files',
             indices @ [(yOffset, yOffset + windowSizeY, xOffset, xOffset + windowSizeX)]))"

fun outer_loop ::
  "ndarray \<Rightarrow> int \<Rightarrow> int \<Rightarrow> int list \<Rightarrow> int list \<Rightarrow> loop_state \<Rightarrow> py_error + loop_state" where
  "outer_loop data windowSizeY windowSizeX [] yOffsets st = Inr st"
| "outer_loop data windowSizeY windowSizeX (xOffset # xOffsets) yOffsets st =
     (case inner_loop data windowSizeY windowSizeX xOffset yOffsets st of
        Inl e \<Rightarrow> Inl e
      | Inr st' \<Rightarrow> outer_loop data windowSizeY windowSizeX xOffsets yOffsets st')"

text \<open>
  \<open>extract_patches\<close> from line 54 on. The result is the files written into the temporary
  directory (where the source returns the path of the directory), \<open>indices\<close> and the
  original shape. The creation of the temporary directory (lines 33 to 37) is
  \<open>extract_patches_mkdtemp\<close> below.
\<close>

definition extract_patches ::
  "ndarray \<Rightarrow> int \<Rightarrow> rat option \<Rightarrow> int option \<Rightarrow>
     py_error + ((string \<times> ndarray) list \<times> offset list \<times> (nat \<times> nat \<times> nat))" where
  "extract_patches data patchsize overlap stride =
     (case window_sizes (shape data) patchsize of (windowSizeX, windowSizeY, windowSizeZ) \<Rightarrow>
       (case start_offsets (shape data) patchsize overlap stride of
          Inl e \<Rightarrow> Inl e
        | Inr (xOffsets, yOffsets, zOffsets) \<Rightarrow>
           (case outer_loop data windowSizeY windowSizeX xOffsets yOffsets (0, [], []) of
              Inl e \<Rightarrow> Inl e
            | Inr (patch_index, files, indices) \<Rightarrow> Inr (files, indices, shape data))))"

section \<open>Temporary directory: \<open>__init__\<close>, \<open>cleanup\<close> and \<open>tempfile.mkdtemp\<close>\<close>

text \<open>
  The instance fields (lines 21 to 23). The file system is the set of directories that
  exist; the files of a directory go with it.
\<close>

record emp =
  temp_dir :: "string option"
  temp_dir_path :: "string option"

definition init :: emp where
  "init = \<lparr>temp_dir = None, temp_dir_path = None\<rparr>"

text \<open>\<open>shutil.rmtree(path)\<close> raises when the directory does not exist.\<close>

definition rmtree :: "string \<Rightarrow> string set \<Rightarrow> py_error + string set" where
  "rmtree path fs = (if path \<in> fs then Inr (fs - {path}) else Inl FileNotFoundError)"

text \<open>
  Lines 25 to 29. \<open>if self.temp_dir:\<close> is false for \<open>None\<close> and for the empty string.
\<close>

definition cleanup :: "emp \<Rightarrow> string set \<Rightarrow> py_error + (emp \<times> string set)" where
  "cleanup self fs =
     (case temp_dir self of
        None \<Rightarrow> Inr (self, fs)
      | Some path \<Rightarrow>
          if path = [] then Inr (self, fs)
          else (case rmtree path fs of
                  Inl e \<Rightarrow> Inl e
                | Inr fs' \<Rightarrow> Inr (self\<lparr>temp_dir := None\<rparr>, fs')))"

text \<open>
  Lines 33 to 37 of \<open>extract_patches\<close>: \<open>self.temp_dir = tempfile.mkdtemp(...)\<close>, where
  \<open>path\<close> is the name \<open>mkdtemp\<close> has chosen (not empty, and no existing directory).
\<close>

definition extract_patches_mkdtemp :: "string \<Rightarrow> emp \<Rightarrow> string set \<Rightarrow> emp \<times> string set" where
  "extract_patches_mkdtemp path self fs = (self\<lparr>temp_dir := Some path\<rparr>, insert path fs)"

text \<open>
  What holds of the instance between calls: \<open>temp_dir\<close> is \<open>None\<close> or names an existing
  directory.
\<close>

definition session_inv :: "emp \<Rightarrow> string set \<Rightarrow> bool" where
  "session_inv self fs =
     (case temp_dir self of None \<Rightarrow> True | Some path \<Rightarrow> path \<noteq> [] \<and> path \<in> fs)"

section \<open>The stitcher: the reconstruction loop of the script\<close>

text \<open>
  Lines 139 to 148. \<open>ys\<close> are the values \<open>y\<close> assigned in the loop, in the order the
  loop produces them; \<open>i\<close> is the counter of \<open>enumerate\<close>. \<open>indices[i]\<close> raises
  \<open>IndexError\<close> when there are more values than offsets, and the loop ends without
  an error when there are fewer.
\<close>

fun stitch_loop :: "ndarray \<Rightarrow> offset list \<Rightarrow> nat \<Rightarrow> ndarray list \<Rightarrow> py_error + ndarray" where
  "stitch_loop buf indices i [] = Inr buf"
| "stitch_loop buf indices i (y # ys) =
     (if i < length indices
      then (case setslice buf (indices ! i) y of
              Inl e \<Rightarrow> Inl e
            | Inr buf' \<Rightarrow> stitch_loop buf' indices (Suc i) ys)
      else Inl IndexError)"

definition reconstructed_seg_mask ::
  "nat \<times> nat \<times> nat \<Rightarrow> offset list \<Rightarrow> ndarray list \<Rightarrow> py_error + ndarray" where
  "reconstructed_seg_mask org_shape indices ys = stitch_loop (zeros org_shape) indices 0 ys"

text \<open>
  Line 142: \<open>sorted(os.listdir(patches_path))\<close>. \<open>listing\<close> is what \<open>os.listdir\<close>
  returns, the names of the patch files in some order; Python compares strings
  lexicographically by code point.
\<close>

definition sorted_listdir :: "string list \<Rightarrow> string list" where
  "sorted_listdir listing = sort listing"

text \<open>
  Lines 142 to 146: the files of the directory in the order of their sorted names (the
  names are distinct, so the order \<open>os.listdir\<close> returns them in does not matter), and
  the value \<open>y\<close> of each, where \<open>infer\<close> stands for lines 144 to 146: reading the
  patch back, the model, and the adaptation of the channels.
\<close>

definition consumed_files :: "(string \<times> ndarray) list \<Rightarrow> (string \<times> ndarray) list" where
  "consumed_files files = sort_key fst files"

definition script_reconstruct ::
  "(ndarray \<Rightarrow> ndarray) \<Rightarrow> (string \<times> ndarray) list \<Rightarrow> offset list \<Rightarrow> nat \<times> nat \<times> nat \<Rightarrow>
     py_error + ndarray" where
  "script_reconstruct infer files indices org_shape =
     reconstructed_seg_mask org_shape indices
       (map (\<lambda>(name, patch). infer patch) (consumed_files files))"

text \<open>The identity model of the round-trip property: it returns its patch unchanged.\<close>

definition identity_model :: "ndarray \<Rightarrow> ndarray" where
  "identity_model patch = patch"

section \<open>Auxiliary notions for the proofs\<close>

text \<open>
  The arithmetic progression \<open>0, step, 2 * step, \<dots>\<close> not exceeding \<open>last\<close>; the offsets
  of the nested loops as one list; the patch files as a function of the offsets; and the
  tiling policies the specification calls valid (\<open>stride\<close> wins when both are given).
\<close>

definition progression :: "int \<Rightarrow> int \<Rightarrow> int list" where
  "progression lst stepSize = map (\<lambda>k. int k * stepSize) [0..<Suc (nat (lst div stepSize))]"

definition grid :: "int \<Rightarrow> int \<Rightarrow> int list \<Rightarrow> int list \<Rightarrow> offset list" where
  "grid windowSizeY windowSizeX xOffsets yOffsets =
     concat (map (\<lambda>xOffset. map (\<lambda>yOffset.
        (yOffset, yOffset + windowSizeY, xOffset, xOffset + windowSizeX)) yOffsets) xOffsets)"

definition files_of :: "ndarray \<Rightarrow> nat \<Rightarrow> offset list \<Rightarrow> (string \<times> ndarray) list" where
  "files_of data n offs =
     map (\<lambda>(i, off). (patch_name i, getslice data off)) (zip [n..<n + length offs] offs)"

definition valid_policy :: "rat option \<Rightarrow> int option \<Rightarrow> bool" where
  "valid_policy overlap stride =
     (case stride of
        Some s \<Rightarrow> 1 \<le> s
      | None \<Rightarrow> (case overlap of Some p \<Rightarrow> 0 \<le> p \<and> p < 1 | None \<Rightarrow> True))"

text \<open>Every patch of a list of offsets can be written.\<close>

definition writable :: "ndarray \<Rightarrow> offset list \<Rightarrow> bool" where
  "writable data offs = list_all (\<lambda>off. \<not> empty_image (getslice data off)) offs"

text \<open>The offset list of a result of \<open>extract_patches\<close>.\<close>

definition indices_of ::
  "py_error + ((string \<times> ndarray) list \<times> offset list \<times> (nat \<times> nat \<times> nat)) \<Rightarrow> py_error + offset list" where
  "indices_of r = (case r of Inl e \<Rightarrow> Inl e | Inr (files, indices, shp) \<Rightarrow> Inr indices)"

text \<open>A coordinate \<open>(y, x)\<close> lies in a window; it lies in some window of a list.\<close>

fun contains :: "offset \<Rightarrow> int \<Rightarrow> int \<Rightarrow> bool" where
  "contains (yStart, yEnd, xStart, xEnd) y x = (yStart \<le> y \<and> y < yEnd \<and> xStart \<le> x \<and> x < xEnd)"

fun covered :: "offset list \<Rightarrow> int \<Rightarrow> int \<Rightarrow> bool" where
  "covered [] y x = False"
| "covered (off # offs) y x = (contains off y x \<or> covered offs y x)"

text \<open>
  The reconstruction loop over pairs of an offset and its value, and a window that lies
  inside an array of the given shape.
\<close>

fun stitch_pairs :: "ndarray \<Rightarrow> (offset \<times> ndarray) list \<Rightarrow> py_error + ndarray" where
  "stitch_pairs buf [] = Inr buf"
| "stitch_pairs buf ((off, y) # ps) =
     (case setslice buf off y of Inl e \<Rightarrow> Inl e | Inr buf' \<Rightarrow> stitch_pairs buf' ps)"

fun in_bounds :: "nat \<times> nat \<times> nat \<Rightarrow> offset \<Rightarrow> bool" where
  "in_bounds (h, w, d) (yStart, yEnd, xStart, xEnd) =
     (0 \<le> yStart \<and> yStart \<le> yEnd \<and> yEnd \<le> int h \<and> 0 \<le> xStart \<and> xStart \<le> xEnd \<and> xEnd \<le> int w)"

text \<open>The shape of a value that fills the window of an offset in an array of depth \<open>d\<close>.\<close>

definition window_shape :: "offset \<Rightarrow> nat \<Rightarrow> nat \<times> nat \<times> nat" where
  "window_shape off d = (case off of (yStart, yEnd, xStart, xEnd) \<Rightarrow>
      (nat (yEnd - yStart), nat (xEnd - xStart), d))"

text \<open>A 1 by 11 by 3 image with the value \<open>100 + x\<close> in column \<open>x\<close>, as a test input.\<close>

definition ramp11 :: ndarray where
  "ramp11 = \<lparr>shape = (1, 11, 3), item = (\<lambda>i j k. word_of_nat (100 + j))\<rparr>"

section \<open>Lemmas about the tiler\<close>

lemma py_range_pos:
  assumes "0 < s" "0 \<le> L"
  shows "py_range 0 (L + 1) s = Inr (progression L s)"
proof -
  have "0 \<le> L div s" using assms by (simp add: pos_imp_zdiv_nonneg_iff)
  then have "nat (L div s + 1) = Suc (nat (L div s))" by simp
  with assms show ?thesis
    by (simp add: py_range_def range_len_def progression_def)
qed

lemma axis_offsets_pos:
  "0 < s \<Longrightarrow> 0 \<le> L \<Longrightarrow> axis_offsets L s = Inr (append_last (progression L s) L)"
  by (simp add: axis_offsets_def py_range_pos)

lemma append_last_nonempty: "append_last xs L \<noteq> []"
  by (simp add: append_last_def)

lemma last_append_last: "last (append_last xs L) = L"
  by (simp add: append_last_def)

lemma set_append_last: "set (append_last xs L) = insert L (set xs)"
proof (cases "xs = [] \<or> last xs \<noteq> L")
  case True
  then show ?thesis by (auto simp: append_last_def)
next
  case False
  then have "xs \<noteq> []" "last xs = L" by auto
  then have "L \<in> set xs" using last_in_set by blast
  with False show ?thesis by (auto simp: append_last_def)
qed

lemma progression_mem:
  assumes "0 < s" "0 \<le> L"
  shows "x \<in> set (progression L s) \<longleftrightarrow> (\<exists>k. 0 \<le> k \<and> k \<le> L div s \<and> x = k * s)"
proof
  assume "x \<in> set (progression L s)"
  then have "x \<in> (\<lambda>k. int k * s) ` {0..<Suc (nat (L div s))}"
    by (simp only: progression_def set_map set_upt)
  then obtain n where n: "n < Suc (nat (L div s))" "x = int n * s"
    by auto
  moreover have "0 \<le> L div s" using assms by (simp add: pos_imp_zdiv_nonneg_iff)
  ultimately have "0 \<le> int n \<and> int n \<le> L div s \<and> x = int n * s" by auto
  then show "\<exists>k. 0 \<le> k \<and> k \<le> L div s \<and> x = k * s" by blast
next
  assume "\<exists>k. 0 \<le> k \<and> k \<le> L div s \<and> x = k * s"
  then obtain k where k: "0 \<le> k" "k \<le> L div s" "x = k * s" by blast
  then have "nat k < Suc (nat (L div s))" "x = int (nat k) * s" by auto
  then have "x \<in> (\<lambda>k. int k * s) ` {0..<Suc (nat (L div s))}"
    by (intro image_eqI[where x="nat k"]) auto
  then show "x \<in> set (progression L s)"
    by (simp only: progression_def set_map set_upt)
qed

lemma progression_bounds:
  assumes "0 < s" "0 \<le> L" "x \<in> set (progression L s)"
  shows "0 \<le> x \<and> x \<le> L"
proof -
  from assms obtain k where k: "0 \<le> k" "k \<le> L div s" "x = k * s"
    by (auto simp: progression_mem)
  have "k * s \<le> (L div s) * s" using k assms by (simp add: mult_right_mono)
  moreover have "(L div s) * s = L - L mod s" by (simp add: minus_mod_eq_div_mult)
  moreover have "0 \<le> L mod s" using assms by simp
  ultimately have "x \<le> L" using k by simp
  moreover have "0 \<le> x" using k assms by simp
  ultimately show ?thesis by simp
qed

lemma axis_covered_iff:
  assumes "0 < s" "0 \<le> L" "1 \<le> w"
  shows "(\<forall>c. 0 \<le> c \<and> c < L + w \<longrightarrow>
            (\<exists>x \<in> set (append_last (progression L s) L). x \<le> c \<and> c < x + w))
         \<longleftrightarrow> min s L \<le> w"
proof
  assume cov: "\<forall>c. 0 \<le> c \<and> c < L + w \<longrightarrow>
            (\<exists>x \<in> set (append_last (progression L s) L). x \<le> c \<and> c < x + w)"
  show "min s L \<le> w"
  proof (rule ccontr)
    assume "\<not> min s L \<le> w"
    then have big: "w < s" "w < L" by auto
    with assms have "0 \<le> w \<and> w < L + w" by simp
    with cov obtain x where x: "x \<in> set (append_last (progression L s) L)" "x \<le> w" "w < x + w"
      by blast
    from x(1) have "x = L \<or> x \<in> set (progression L s)" by (simp add: set_append_last)
    then show False
    proof
      assume "x = L" with x big show False by simp
    next
      assume "x \<in> set (progression L s)"
      then obtain k where k: "0 \<le> k" "x = k * s" using assms by (auto simp: progression_mem)
      from x(3) k have "0 < k * s" by simp
      then have "1 \<le> k" using assms k by (simp add: zero_less_mult_iff)
      then have "s \<le> k * s" using assms by (simp add: mult_le_cancel_right1)
      with k x big show False by simp
    qed
  qed
next
  assume gap: "min s L \<le> w"
  show "\<forall>c. 0 \<le> c \<and> c < L + w \<longrightarrow>
            (\<exists>x \<in> set (append_last (progression L s) L). x \<le> c \<and> c < x + w)"
  proof (intro allI impI)
    fix c assume c: "0 \<le> c \<and> c < L + w"
    show "\<exists>x \<in> set (append_last (progression L s) L). x \<le> c \<and> c < x + w"
    proof (cases "L \<le> c")
      case True
      with c show ?thesis by (auto simp: set_append_last)
    next
      case False
      show ?thesis
      proof (cases "s \<le> w")
        case True
        let ?k = "c div s"
        have "?k \<le> L div s" using False assms by (simp add: zdiv_mono1)
        moreover have "0 \<le> ?k" using c assms by (simp add: pos_imp_zdiv_nonneg_iff)
        ultimately have "?k * s \<in> set (progression L s)" using assms by (auto simp: progression_mem)
        moreover have "?k * s = c - c mod s" by (simp add: minus_mod_eq_div_mult)
        moreover have "0 \<le> c mod s" "c mod s < s" using assms by simp_all
        ultimately have "?k * s \<in> set (progression L s) \<and> ?k * s \<le> c \<and> c < ?k * s + w"
          using True by simp
        then show ?thesis by (auto simp: set_append_last)
      next
        case nle: False
        with gap have "L \<le> w" by simp
        moreover have "0 \<in> set (progression L s)"
          using assms progression_mem[of s L 0] by (simp add: pos_imp_zdiv_nonneg_iff)
        ultimately show ?thesis using c False by (auto simp: set_append_last)
      qed
    qed
  qed
qed

lemma length_grid: "length (grid wY wX xs ys) = length xs * length ys"
  by (induction xs) (simp_all add: grid_def)

lemma grid_Cons:
  "grid wY wX (x # xs) ys = map (\<lambda>y. (y, y + wY, x, x + wX)) ys @ grid wY wX xs ys"
  by (simp add: grid_def)

lemma nth_grid:
  "i < length xs \<Longrightarrow> j < length ys \<Longrightarrow>
     grid wY wX xs ys ! (i * length ys + j) = (ys ! j, ys ! j + wY, xs ! i, xs ! i + wX)"
proof (induction xs arbitrary: i)
  case Nil
  then show ?case by simp
next
  case (Cons x xs)
  show ?case
  proof (cases i)
    case 0
    with Cons.prems show ?thesis by (simp add: grid_Cons nth_append)
  next
    case (Suc i')
    with Cons.prems have "i' < length xs" by simp
    from Cons.IH[OF this Cons.prems(2)] Suc show ?thesis
      by (simp add: grid_Cons nth_append)
  qed
qed

lemma set_grid:
  "set (grid wY wX xs ys) = (\<lambda>(x, y). (y, y + wY, x, x + wX)) ` (set xs \<times> set ys)"
  by (auto simp: grid_def)

lemma files_of_Nil: "files_of data n [] = []"
  by (simp add: files_of_def)

lemma files_of_Cons:
  "files_of data n (off # offs) = (patch_name n, getslice data off) # files_of data (Suc n) offs"
proof -
  have "[n..<n + length (off # offs)] = n # [Suc n..<Suc n + length offs]"
    using upt_conv_Cons[of n "n + length (off # offs)"] by simp
  then show ?thesis by (simp only: files_of_def zip_Cons_Cons list.map prod.case)
qed

lemma files_of_append:
  "files_of data n (as @ bs) = files_of data n as @ files_of data (n + length as) bs"
  by (induction as arbitrary: n) (simp_all add: files_of_Nil files_of_Cons)

lemma writable_append: "writable data (as @ bs) \<longleftrightarrow> writable data as \<and> writable data bs"
  by (simp add: writable_def)

lemma inner_loop_eq:
  "inner_loop data wY wX x ys (n, files, indices) =
     (if writable data (map (\<lambda>y. (y, y + wY, x, x + wX)) ys)
      then Inr (n + length ys,
             files @ files_of data n (map (\<lambda>y. (y, y + wY, x, x + wX)) ys),
             indices @ map (\<lambda>y. (y, y + wY, x, x + wX)) ys)
      else Inl Cv2Error)"
  by (induction ys arbitrary: n files indices)
    (simp_all add: files_of_Nil files_of_Cons writable_def imwrite_def)

lemma outer_loop_eq:
  "outer_loop data wY wX xs ys (n, files, indices) =
     (if writable data (grid wY wX xs ys)
      then Inr (n + length xs * length ys,
             files @ files_of data n (grid wY wX xs ys),
             indices @ grid wY wX xs ys)
      else Inl Cv2Error)"
proof (induction xs arbitrary: n files indices)
  case Nil
  then show ?case by (simp add: files_of_Nil grid_def writable_def)
next
  case (Cons x xs)
  let ?row = "map (\<lambda>y. (y, y + wY, x, x + wX)) ys"
  show ?case
  proof (cases "writable data ?row")
    case False
    then show ?thesis by (simp add: inner_loop_eq grid_Cons writable_append)
  next
    case True
    have "n + length ys + length xs * length ys = n + length (x # xs) * length ys" by simp
    with True show ?thesis
      by (simp only: outer_loop.simps inner_loop_eq Cons.IH grid_Cons files_of_append
            append_assoc length_map writable_append if_True sum.case simp_thms)
  qed
qed

lemma extract_patches_eq:
  "extract_patches data patchsize overlap stride =
     (case start_offsets (shape data) patchsize overlap stride of
        Inl e \<Rightarrow> Inl e
      | Inr (xOffsets, yOffsets, zOffsets) \<Rightarrow>
          (let offs = grid (fst (snd (window_sizes (shape data) patchsize)))
                        (fst (window_sizes (shape data) patchsize)) xOffsets yOffsets
           in if writable data offs then Inr (files_of data 0 offs, offs, shape data)
              else Inl Cv2Error))"
  by (auto simp: extract_patches_def outer_loop_eq Let_def split: prod.splits sum.splits)

lemma overlap_step:
  fixes w :: int and p :: rat
  assumes "1 \<le> w" "0 \<le> p" "p < 1"
  shows "1 \<le> w - \<lfloor>of_int w * p\<rfloor> \<and> w - \<lfloor>of_int w * p\<rfloor> \<le> w"
proof -
  have "0 \<le> of_int w * p" using assms by simp
  then have lo: "0 \<le> \<lfloor>of_int w * p\<rfloor>" by simp
  have "of_int w * p < of_int w * 1" using assms by (intro mult_strict_left_mono) simp_all
  then have "\<lfloor>of_int w * p\<rfloor> < w" by (simp add: floor_less_iff)
  with lo show ?thesis by simp
qed

lemma valid_steps:
  assumes "1 \<le> wX" "1 \<le> wY" "1 \<le> wZ" "valid_policy overlap stride"
    and "step_sizes (wX, wY, wZ) overlap stride = (sX, sY, sZ)"
  shows "1 \<le> sX \<and> 1 \<le> sY \<and> 1 \<le> sZ"
  using assms overlap_step[of wX] overlap_step[of wY] overlap_step[of wZ]
  by (auto simp: step_sizes_def valid_policy_def split: option.splits)

lemma steps_no_stride:
  assumes "1 \<le> wX" "1 \<le> wY" "1 \<le> wZ" "valid_policy overlap None"
    and "step_sizes (wX, wY, wZ) overlap None = (sX, sY, sZ)"
  shows "sX \<le> wX \<and> sY \<le> wY"
  using assms overlap_step[of wX] overlap_step[of wY]
  by (auto simp: step_sizes_def valid_policy_def split: option.splits)

lemma axis_offsets_fail: "axis_offsets L s = Inl e \<longleftrightarrow> s = 0 \<and> e = ValueError"
  by (auto simp: axis_offsets_def py_range_def)

lemma start_offsets_valid:
  assumes "1 \<le> h" "1 \<le> w" "1 \<le> d" "1 \<le> p" "valid_policy overlap stride"
    and "step_sizes (window_sizes (h, w, d) p) overlap stride = (sX, sY, sZ)"
  shows "start_offsets (h, w, d) p overlap stride =
         Inr (append_last (progression (int w - min p (int w)) sX) (int w - min p (int w)),
              append_last (progression (int h - min p (int h)) sY) (int h - min p (int h)),
              append_last (progression (int d - min p (int d)) sZ) (int d - min p (int d)))"
proof -
  have ws: "window_sizes (h, w, d) p = (min p (int w), min p (int h), min p (int d))"
    by (simp add: window_sizes_def)
  have "1 \<le> min p (int w)" "1 \<le> min p (int h)" "1 \<le> min p (int d)" using assms by simp_all
  with assms(5,6) ws have s: "1 \<le> sX \<and> 1 \<le> sY \<and> 1 \<le> sZ"
    using valid_steps[of "min p (int w)" "min p (int h)" "min p (int d)" overlap stride sX sY sZ]
    by simp
  have "axis_offsets (int w - min p (int w)) sX =
          Inr (append_last (progression (int w - min p (int w)) sX) (int w - min p (int w)))"
    using s by (intro axis_offsets_pos) simp_all
  moreover have "axis_offsets (int h - min p (int h)) sY =
          Inr (append_last (progression (int h - min p (int h)) sY) (int h - min p (int h)))"
    using s by (intro axis_offsets_pos) simp_all
  moreover have "axis_offsets (int d - min p (int d)) sZ =
          Inr (append_last (progression (int d - min p (int d)) sZ) (int d - min p (int d)))"
    using s by (intro axis_offsets_pos) simp_all
  ultimately show ?thesis using assms(6) ws
    by (simp add: start_offsets_def)
qed

lemma indices_of_extract:
  "indices_of (extract_patches data patchsize overlap stride) =
     (case start_offsets (shape data) patchsize overlap stride of
        Inl e \<Rightarrow> Inl e
      | Inr (xOffsets, yOffsets, zOffsets) \<Rightarrow>
          (let offs = grid (fst (snd (window_sizes (shape data) patchsize)))
                        (fst (window_sizes (shape data) patchsize)) xOffsets yOffsets
           in if writable data offs then Inr offs else Inl Cv2Error))"
  by (simp add: extract_patches_eq indices_of_def Let_def split: sum.splits prod.splits)

lemmas patch_eval =
  Let_def writable_def empty_image_def getslice_def slice_bounds_def clip_index_def

lemma covered_iff: "covered offs y x \<longleftrightarrow> (\<exists>off \<in> set offs. contains off y x)"
  by (induction offs) auto

lemma axis_elem_bounds:
  assumes "0 < s" "0 \<le> L" "x \<in> set (append_last (progression L s) L)"
  shows "0 \<le> x \<and> x \<le> L"
  using assms progression_bounds[of s L x] by (auto simp: set_append_last)

lemma covered_grid:
  "covered (grid wY wX xs ys) y x \<longleftrightarrow>
     (\<exists>b \<in> set ys. b \<le> y \<and> y < b + wY) \<and> (\<exists>a \<in> set xs. a \<le> x \<and> x < a + wX)"
  by (auto simp: covered_iff set_grid)

lemma grid_covered_iff:
  assumes "0 < H" "0 < W"
  shows "(\<forall>y x. 0 \<le> y \<and> y < H \<and> 0 \<le> x \<and> x < W \<longrightarrow> covered (grid wY wX xs ys) y x) \<longleftrightarrow>
         (\<forall>y. 0 \<le> y \<and> y < H \<longrightarrow> (\<exists>b \<in> set ys. b \<le> y \<and> y < b + wY)) \<and>
         (\<forall>x. 0 \<le> x \<and> x < W \<longrightarrow> (\<exists>a \<in> set xs. a \<le> x \<and> x < a + wX))"
proof
  assume cov: "\<forall>y x. 0 \<le> y \<and> y < H \<and> 0 \<le> x \<and> x < W \<longrightarrow> covered (grid wY wX xs ys) y x"
  have "\<exists>b \<in> set ys. b \<le> y \<and> y < b + wY" if "0 \<le> y \<and> y < H" for y
    using cov[rule_format, of y 0] that assms by (simp add: covered_grid)
  moreover have "\<exists>a \<in> set xs. a \<le> x \<and> x < a + wX" if "0 \<le> x \<and> x < W" for x
    using cov[rule_format, of 0 x] that assms by (simp add: covered_grid)
  ultimately show "(\<forall>y. 0 \<le> y \<and> y < H \<longrightarrow> (\<exists>b \<in> set ys. b \<le> y \<and> y < b + wY)) \<and>
         (\<forall>x. 0 \<le> x \<and> x < W \<longrightarrow> (\<exists>a \<in> set xs. a \<le> x \<and> x < a + wX))"
    by blast
next
  assume "(\<forall>y. 0 \<le> y \<and> y < H \<longrightarrow> (\<exists>b \<in> set ys. b \<le> y \<and> y < b + wY)) \<and>
         (\<forall>x. 0 \<le> x \<and> x < W \<longrightarrow> (\<exists>a \<in> set xs. a \<le> x \<and> x < a + wX))"
  then show "\<forall>y x. 0 \<le> y \<and> y < H \<and> 0 \<le> x \<and> x < W \<longrightarrow> covered (grid wY wX xs ys) y x"
    by (simp add: covered_grid)
qed

lemma grid_in_bounds:
  assumes "1 \<le> sX" "1 \<le> sY" "1 \<le> wX" "1 \<le> wY" "wX \<le> W" "wY \<le> H"
  shows "\<forall>(yStart, yEnd, xStart, xEnd) \<in>
            set (grid wY wX (append_last (progression (W - wX) sX) (W - wX))
                   (append_last (progression (H - wY) sY) (H - wY))).
           0 \<le> yStart \<and> yStart < yEnd \<and> yEnd \<le> H \<and>
           0 \<le> xStart \<and> xStart < xEnd \<and> xEnd \<le> W \<and>
           yEnd - yStart = wY \<and> xEnd - xStart = wX"
proof -
  have "0 \<le> y \<and> y < y + wY \<and> y + wY \<le> H \<and> 0 \<le> x \<and> x < x + wX \<and> x + wX \<le> W"
    if "x \<in> set (append_last (progression (W - wX) sX) (W - wX))"
      "y \<in> set (append_last (progression (H - wY) sY) (H - wY))" for x y
    using axis_elem_bounds[of sX "W - wX" x] axis_elem_bounds[of sY "H - wY" y] that assms
    by auto
  then show ?thesis by (auto simp: set_grid)
qed

lemma valid_window_steps:
  assumes "1 \<le> h" "1 \<le> w" "1 \<le> d" "1 \<le> p" "valid_policy overlap stride"
    and "step_sizes (window_sizes (h, w, d) p) overlap stride = (sX, sY, sZ)"
  shows "1 \<le> sX \<and> 1 \<le> sY \<and> 1 \<le> sZ"
proof -
  have "window_sizes (h, w, d) p = (min p (int w), min p (int h), min p (int d))"
    by (simp add: window_sizes_def)
  moreover have "1 \<le> min p (int w)" "1 \<le> min p (int h)" "1 \<le> min p (int d)"
    using assms by simp_all
  ultimately show ?thesis
    using valid_steps[of "min p (int w)" "min p (int h)" "min p (int d)" overlap stride sX sY sZ]
      assms(5,6) by simp
qed

lemma progression_nonempty: "progression L s \<noteq> []"
  by (simp add: progression_def)

lemma append_last_alt:
  "xs \<noteq> [] \<Longrightarrow> append_last xs L = (if last xs = L then xs else xs @ [L])"
  by (simp add: append_last_def)

lemma slice_bounds_in:
  "0 \<le> a \<Longrightarrow> a \<le> b \<Longrightarrow> b \<le> int n \<Longrightarrow> slice_bounds a b n = (nat a, nat (b - a))"
  by (simp add: slice_bounds_def clip_index_def)

lemma getslice_nonempty:
  assumes "shape data = (h, w, d)" "1 \<le> d"
    and "0 \<le> y0" "y0 < y1" "y1 \<le> int h" "0 \<le> x0" "x0 < x1" "x1 \<le> int w"
  shows "\<not> empty_image (getslice data (y0, y1, x0, x1))"
  using assms by (simp add: getslice_def empty_image_def slice_bounds_in)

lemma valid_grid_writable:
  assumes "shape data = (h, w, d)" "1 \<le> h" "1 \<le> w" "1 \<le> d" "1 \<le> p"
    and "1 \<le> sX" "1 \<le> sY"
  shows "writable data (grid (min p (int h)) (min p (int w))
           (append_last (progression (int w - min p (int w)) sX) (int w - min p (int w)))
           (append_last (progression (int h - min p (int h)) sY) (int h - min p (int h))))"
proof -
  have "\<forall>(yStart, yEnd, xStart, xEnd) \<in>
            set (grid (min p (int h)) (min p (int w))
                   (append_last (progression (int w - min p (int w)) sX) (int w - min p (int w)))
                   (append_last (progression (int h - min p (int h)) sY) (int h - min p (int h)))).
           0 \<le> yStart \<and> yStart < yEnd \<and> yEnd \<le> int h \<and>
           0 \<le> xStart \<and> xStart < xEnd \<and> xEnd \<le> int w \<and>
           yEnd - yStart = min p (int h) \<and> xEnd - xStart = min p (int w)"
    using assms by (intro grid_in_bounds) simp_all
  then show ?thesis
    using getslice_nonempty[OF assms(1,4)]
    by (auto simp: writable_def list_all_iff)
qed

lemma indices_of_valid:
  assumes "shape data = (h, w, d)" "1 \<le> h" "1 \<le> w" "1 \<le> d" "1 \<le> p"
    and "valid_policy overlap stride"
    and "step_sizes (window_sizes (h, w, d) p) overlap stride = (sX, sY, sZ)"
  shows "indices_of (extract_patches data p overlap stride) =
           Inr (grid (min p (int h)) (min p (int w))
                  (append_last (progression (int w - min p (int w)) sX) (int w - min p (int w)))
                  (append_last (progression (int h - min p (int h)) sY) (int h - min p (int h))))"
proof -
  have s: "1 \<le> sX \<and> 1 \<le> sY \<and> 1 \<le> sZ" using valid_window_steps[OF assms(2-7)] .
  then have "writable data (grid (min p (int h)) (min p (int w))
           (append_last (progression (int w - min p (int w)) sX) (int w - min p (int w)))
           (append_last (progression (int h - min p (int h)) sY) (int h - min p (int h))))"
    using valid_grid_writable[OF assms(1-5)] by simp
  then show ?thesis
    using start_offsets_valid[OF assms(2-7)] assms(1)
    by (simp add: indices_of_extract window_sizes_def Let_def)
qed

lemma grid_cover_iff:
  assumes "1 \<le> sX" "1 \<le> sY" "1 \<le> wX" "1 \<le> wY" "wX \<le> W" "wY \<le> H"
  shows "(\<forall>y x. 0 \<le> y \<and> y < H \<and> 0 \<le> x \<and> x < W \<longrightarrow>
            covered (grid wY wX (append_last (progression (W - wX) sX) (W - wX))
                       (append_last (progression (H - wY) sY) (H - wY))) y x) \<longleftrightarrow>
         min sY (H - wY) \<le> wY \<and> min sX (W - wX) \<le> wX"
proof -
  let ?xo = "append_last (progression (W - wX) sX) (W - wX)"
  let ?yo = "append_last (progression (H - wY) sY) (H - wY)"
  have covY: "(\<forall>c. 0 \<le> c \<and> c < H \<longrightarrow> (\<exists>b \<in> set ?yo. b \<le> c \<and> c < b + wY)) \<longleftrightarrow>
      min sY (H - wY) \<le> wY"
    using axis_covered_iff[of sY "H - wY" wY] assms by simp
  have covX: "(\<forall>c. 0 \<le> c \<and> c < W \<longrightarrow> (\<exists>a \<in> set ?xo. a \<le> c \<and> c < a + wX)) \<longleftrightarrow>
      min sX (W - wX) \<le> wX"
    using axis_covered_iff[of sX "W - wX" wX] assms by simp
  have "0 < H" "0 < W" using assms by simp_all
  from grid_covered_iff[OF this, of wY wX ?xo ?yo] covX covY show ?thesis by simp
qed

lemma gap_policy:
  assumes "1 \<le> h" "1 \<le> w" "1 \<le> d" "1 \<le> p" "valid_policy overlap stride"
    and st: "step_sizes (window_sizes (h, w, d) p) overlap stride = (sX, sY, sZ)"
  shows "(min sY (int h - min p (int h)) \<le> min p (int h) \<and>
          min sX (int w - min p (int w)) \<le> min p (int w)) \<longleftrightarrow>
         (case stride of
            None \<Rightarrow> True
          | Some s \<Rightarrow>
              min s (int h - min p (int h)) \<le> min p (int h) \<and>
              min s (int w - min p (int w)) \<le> min p (int w))"
proof (cases stride)
  case None
  have "window_sizes (h, w, d) p = (min p (int w), min p (int h), min p (int d))"
    by (simp add: window_sizes_def)
  moreover have "1 \<le> min p (int w)" "1 \<le> min p (int h)" "1 \<le> min p (int d)"
    using assms by simp_all
  ultimately have "sX \<le> min p (int w) \<and> sY \<le> min p (int h)"
    using steps_no_stride[of "min p (int w)" "min p (int h)" "min p (int d)" overlap sX sY sZ]
      st assms(5) None
    by simp
  with None show ?thesis by (simp add: min_le_iff_disj)
next
  case (Some s')
  with st have "sX = s'" "sY = s'" by (simp_all add: step_sizes_def split: prod.splits)
  with Some show ?thesis by simp
qed

lemma start_offsets_fail_iff:
  assumes "step_sizes (window_sizes shp p) overlap stride = (sX, sY, sZ)"
  shows "start_offsets shp p overlap stride = Inl e \<longleftrightarrow> (sX = 0 \<or> sY = 0 \<or> sZ = 0) \<and> e = ValueError"
proof -
  obtain h w d where shp: "shp = (h, w, d)" by (metis prod_cases3)
  obtain wX wY wZ where ws: "window_sizes shp p = (wX, wY, wZ)" by (metis prod_cases3)
  have ax: "(\<exists>xs. axis_offsets L s = Inr xs) \<longleftrightarrow> s \<noteq> 0" for L s
    by (auto simp: axis_offsets_def py_range_def)
  show ?thesis
    using assms ax[of "int w - wX" sX] ax[of "int h - wY" sY] ax[of "int d - wZ" sZ]
    unfolding start_offsets_def shp[symmetric] ws
    by (auto simp: shp axis_offsets_fail split: sum.splits)
qed

lemma start_offsets_Inl: "start_offsets shp p overlap stride = Inl e \<Longrightarrow> e = ValueError"
proof -
  obtain sX sY sZ where "step_sizes (window_sizes shp p) overlap stride = (sX, sY, sZ)"
    by (metis prod_cases3)
  from start_offsets_fail_iff[OF this, of e] show "start_offsets shp p overlap stride = Inl e \<Longrightarrow> e = ValueError"
    by simp
qed

lemma axis_offsets_Inr: "axis_offsets L s = Inr xs \<Longrightarrow> xs \<noteq> [] \<and> last xs = L"
  by (auto simp: axis_offsets_def append_last_nonempty last_append_last split: sum.splits)

lemma start_offsets_Inr:
  assumes "start_offsets (h, w, d) p overlap stride = Inr (xo, yo, zo)"
  shows "xo \<noteq> [] \<and> last xo = int w - min p (int w) \<and> yo \<noteq> [] \<and> last yo = int h - min p (int h)"
  using assms
  by (auto simp: start_offsets_def window_sizes_def dest: axis_offsets_Inr
        split: prod.splits sum.splits)

lemma invalid_last_patch_empty:
  assumes "shape data = (h, w, d)" "p \<le> 0 \<or> h = 0 \<or> w = 0 \<or> d = 0"
  shows "empty_image (getslice data
           (int h - min p (int h), int h - min p (int h) + min p (int h),
            int w - min p (int w), int w - min p (int w) + min p (int w)))"
  using assms
  by (auto simp: getslice_def empty_image_def slice_bounds_def clip_index_def)

lemma extract_patches_valid:
  assumes "shape data = (h, w, d)" "1 \<le> h" "1 \<le> w" "1 \<le> d" "1 \<le> p"
    and "valid_policy overlap stride"
  shows "\<exists>offs. extract_patches data p overlap stride = Inr (files_of data 0 offs, offs, (h, w, d)) \<and>
           indices_of (extract_patches data p overlap stride) = Inr offs"
proof -
  obtain sX sY sZ where st: "step_sizes (window_sizes (h, w, d) p) overlap stride = (sX, sY, sZ)"
    by (metis prod_cases3)
  have s: "1 \<le> sX \<and> 1 \<le> sY \<and> 1 \<le> sZ" using valid_window_steps[OF assms(2-6) st] .
  then have "writable data (grid (min p (int h)) (min p (int w))
           (append_last (progression (int w - min p (int w)) sX) (int w - min p (int w)))
           (append_last (progression (int h - min p (int h)) sY) (int h - min p (int h))))"
    using valid_grid_writable[OF assms(1-5)] by simp
  then show ?thesis
    using start_offsets_valid[OF assms(2-6) st] assms(1)
    by (simp add: extract_patches_eq indices_of_def Let_def window_sizes_def)
qed

lemma extract_patches_Inr:
  assumes "extract_patches data patchsize overlap stride = Inr (files, offs, shp)"
  shows "files = files_of data 0 offs"
  using assms
  by (auto simp: extract_patches_eq Let_def split: sum.splits prod.splits if_splits)

text \<open>
  The two scenarios of the specification: a 500 by 500 image, overlap 0.0, patch sizes
  224 and 300.
\<close>

lemma scenario_500_224:
  "indices_of (extract_patches (zeros (500, 500, 3)) 224 (Some 0) None) =
     Inr [(0, 224, 0, 224), (224, 448, 0, 224), (276, 500, 0, 224),
          (0, 224, 224, 448), (224, 448, 224, 448), (276, 500, 224, 448),
          (0, 224, 276, 500), (224, 448, 276, 500), (276, 500, 276, 500)]"
  by (simp add: indices_of_extract zeros_def start_offsets_def window_sizes_def
        step_sizes_def axis_offsets_def py_range_def range_len_def append_last_def grid_def
        upt_rec patch_eval)

lemma scenario_500_300:
  "start_offsets (500, 500, 3) 300 (Some 0) None = Inr ([0, 200], [0, 200], [0])"
  by (simp add: start_offsets_def window_sizes_def
        step_sizes_def axis_offsets_def py_range_def range_len_def append_last_def
        upt_rec)

section \<open>Lemmas about the stitcher\<close>

lemma setslice_shape: "setslice buf off y = Inr buf' \<Longrightarrow> shape buf' = shape buf"
  by (auto simp: setslice_def split: prod.splits if_splits)

lemma setslice_isl:
  "isl (setslice buf off y) \<longleftrightarrow> \<not> broadcastable (shape y) (region_shape (shape buf) off)"
  by (auto simp: setslice_def region_shape_def split: prod.splits)

lemma stitch_loop_isl:
  "isl (stitch_loop buf offs i ys) \<longleftrightarrow>
     (\<exists>m < length ys. length offs \<le> i + m \<or>
        \<not> broadcastable (shape (ys ! m)) (region_shape (shape buf) (offs ! (i + m))))"
proof (induction ys arbitrary: buf i)
  case Nil
  then show ?case by simp
next
  case (Cons y ys)
  show ?case
  proof (cases "i < length offs")
    case False
    then have "isl (stitch_loop buf offs i (y # ys))" by simp
    moreover have "\<exists>m < length (y # ys). length offs \<le> i + m \<or>
        \<not> broadcastable (shape ((y # ys) ! m)) (region_shape (shape buf) (offs ! (i + m)))"
      using False by (intro exI[of _ 0]) simp
    ultimately show ?thesis by simp
  next
    case True
    show ?thesis
    proof (cases "setslice buf (offs ! i) y")
      case (Inl e)
      then have "isl (setslice buf (offs ! i) y)" by simp
      then have nb: "\<not> broadcastable (shape y) (region_shape (shape buf) (offs ! i))"
        by (simp add: setslice_isl)
      have "isl (stitch_loop buf offs i (y # ys))" using True Inl by simp
      moreover have "\<exists>m < length (y # ys). length offs \<le> i + m \<or>
        \<not> broadcastable (shape ((y # ys) ! m)) (region_shape (shape buf) (offs ! (i + m)))"
        using nb by (intro exI[of _ 0]) simp
      ultimately show ?thesis by simp
    next
      case (Inr buf')
      then have "\<not> isl (setslice buf (offs ! i) y)" by simp
      then have b: "broadcastable (shape y) (region_shape (shape buf) (offs ! i))"
        by (simp add: setslice_isl)
      have sh: "shape buf' = shape buf" using Inr by (rule setslice_shape)
      have "isl (stitch_loop buf offs i (y # ys)) \<longleftrightarrow> isl (stitch_loop buf' offs (Suc i) ys)"
        using True Inr by simp
      also have "\<dots> \<longleftrightarrow> (\<exists>m < length ys. length offs \<le> Suc i + m \<or>
        \<not> broadcastable (shape (ys ! m)) (region_shape (shape buf) (offs ! (Suc i + m))))"
        using Cons.IH[of buf' "Suc i"] sh by simp
      also have "\<dots> \<longleftrightarrow> (\<exists>m < length (y # ys). length offs \<le> i + m \<or>
        \<not> broadcastable (shape ((y # ys) ! m)) (region_shape (shape buf) (offs ! (i + m))))"
        (is "?L \<longleftrightarrow> ?R")
      proof
        assume ?L
        then obtain m where "m < length ys" "length offs \<le> Suc i + m \<or>
          \<not> broadcastable (shape (ys ! m)) (region_shape (shape buf) (offs ! (Suc i + m)))" by blast
        then show ?R by (intro exI[of _ "Suc m"]) simp
      next
        assume ?R
        then obtain m where m: "m < length (y # ys)" "length offs \<le> i + m \<or>
          \<not> broadcastable (shape ((y # ys) ! m)) (region_shape (shape buf) (offs ! (i + m)))" by blast
        with True b obtain m' where "m = Suc m'" by (cases m) auto
        with m show ?L by (intro exI[of _ m']) simp
      qed
      finally show ?thesis .
    qed
  qed
qed

lemma region_shape_in_bounds:
  "in_bounds (h, w, d) off \<Longrightarrow> region_shape (h, w, d) off = window_shape off d"
  by (cases off) (simp add: region_shape_def window_shape_def slice_bounds_in)

lemma broadcastable_refl: "broadcastable s s"
  by (cases s) (simp add: broadcastable_def)

lemma setslice_getslice:
  assumes "in_bounds (h, w, d) off" "shape buf = (h, w, d)" "shape data = (h, w, d)"
  shows "\<exists>buf'. setslice buf off (getslice data off) = Inr buf' \<and> shape buf' = (h, w, d) \<and>
           (\<forall>r < h. \<forall>c < w. \<forall>k < d. item buf' r c k =
              (if contains off (int r) (int c) then item data r c k else item buf r c k))"
proof -
  obtain y0 y1 x0 x1 where off: "off = (y0, y1, x0, x1)" by (metis prod_cases4)
  with assms(1) have b: "0 \<le> y0" "y0 \<le> y1" "y1 \<le> int h" "0 \<le> x0" "x0 \<le> x1" "x1 \<le> int w"
    by simp_all
  have sy: "slice_bounds y0 y1 h = (nat y0, nat (y1 - y0))" using b by (simp add: slice_bounds_in)
  have sx: "slice_bounds x0 x1 w = (nat x0, nat (x1 - x0))" using b by (simp add: slice_bounds_in)
  let ?g = "getslice data (y0, y1, x0, x1)"
  have gsh: "shape ?g = (nat (y1 - y0), nat (x1 - x0), d)"
    by (simp add: getslice_def assms(3) sy sx)
  have git: "item ?g i j k = item data (nat y0 + i) (nat x0 + j) k" for i j k
    by (simp add: getslice_def assms(3) sy sx)
  let ?buf' = "buf\<lparr>item := (\<lambda>i j k.
               if nat y0 \<le> i \<and> i < nat y0 + nat (y1 - y0) \<and> nat x0 \<le> j \<and> j < nat x0 + nat (x1 - x0) \<and> k < d
               then item ?g (if nat (y1 - y0) = 1 then 0 else i - nat y0)
                      (if nat (x1 - x0) = 1 then 0 else j - nat x0)
                      (if d = 1 then 0 else k)
               else item buf i j k)\<rparr>"
  have ss: "setslice buf off (getslice data off) = Inr ?buf'"
    unfolding off by (simp add: setslice_def assms(2) sy sx gsh broadcastable_def)
  have "item ?buf' r c k = (if contains off (int r) (int c) then item data r c k else item buf r c k)"
    if "r < h" "c < w" "k < d" for r c k
  proof -
    let ?inside = "nat y0 \<le> r \<and> r < nat y0 + nat (y1 - y0) \<and> nat x0 \<le> c \<and> c < nat x0 + nat (x1 - x0) \<and> k < d"
    have itemeq: "item ?buf' r c k =
        (if ?inside
         then item ?g (if nat (y1 - y0) = 1 then 0 else r - nat y0)
                      (if nat (x1 - x0) = 1 then 0 else c - nat x0)
                      (if d = 1 then 0 else k)
         else item buf r c k)"
      by simp
    show ?thesis
    proof (cases "contains off (int r) (int c)")
      case True
      then have in1: ?inside using b that by (auto simp: off)
      then have "item ?buf' r c k = item ?g (if nat (y1 - y0) = 1 then 0 else r - nat y0)
                      (if nat (x1 - x0) = 1 then 0 else c - nat x0)
                      (if d = 1 then 0 else k)"
        unfolding itemeq by (rule if_P)
      moreover have "nat y0 + (if nat (y1 - y0) = 1 then 0 else r - nat y0) = r" using in1 by auto
      moreover have "nat x0 + (if nat (x1 - x0) = 1 then 0 else c - nat x0) = c" using in1 by auto
      moreover have "(if d = 1 then 0 else k) = k" using that by auto
      ultimately have "item ?buf' r c k = item data r c k"
        by (simp only: git)
      with True show ?thesis by (simp only: if_True)
    next
      case False
      then have "\<not> ?inside" using b by (auto simp: off)
      then have "item ?buf' r c k = item buf r c k"
        unfolding itemeq by (rule if_not_P)
      with False show ?thesis by (simp only: if_False)
    qed
  qed
  moreover have "shape ?buf' = (h, w, d)" using assms(2) by simp
  ultimately show ?thesis using ss by blast
qed

lemma stitch_pairs_getslice:
  assumes "\<forall>off \<in> set offs. in_bounds (h, w, d) off" "shape buf = (h, w, d)" "shape data = (h, w, d)"
  shows "\<exists>buf'. stitch_pairs buf (map (\<lambda>off. (off, getslice data off)) offs) = Inr buf' \<and>
           shape buf' = (h, w, d) \<and>
           (\<forall>r < h. \<forall>c < w. \<forall>k < d. item buf' r c k =
              (if covered offs (int r) (int c) then item data r c k else item buf r c k))"
  using assms
proof (induction offs arbitrary: buf)
  case Nil
  then show ?case by simp
next
  case (Cons off offs)
  from Cons.prems have ib: "in_bounds (h, w, d) off" by simp
  from setslice_getslice[OF ib Cons.prems(2,3)] obtain buf1 where
    b1: "setslice buf off (getslice data off) = Inr buf1" "shape buf1 = (h, w, d)"
      "\<forall>r < h. \<forall>c < w. \<forall>k < d. item buf1 r c k =
              (if contains off (int r) (int c) then item data r c k else item buf r c k)"
    by blast
  from Cons.prems have "\<forall>off \<in> set offs. in_bounds (h, w, d) off" by simp
  from Cons.IH[OF this b1(2) Cons.prems(3)] obtain buf' where
    b': "stitch_pairs buf1 (map (\<lambda>off. (off, getslice data off)) offs) = Inr buf'"
      "shape buf' = (h, w, d)"
      "\<forall>r < h. \<forall>c < w. \<forall>k < d. item buf' r c k =
              (if covered offs (int r) (int c) then item data r c k else item buf1 r c k)"
    by blast
  have "stitch_pairs buf (map (\<lambda>off. (off, getslice data off)) (off # offs)) = Inr buf'"
    using b1(1) b'(1) by simp
  moreover have "\<forall>r < h. \<forall>c < w. \<forall>k < d. item buf' r c k =
              (if covered (off # offs) (int r) (int c) then item data r c k else item buf r c k)"
    using b1(3) b'(3) by simp
  ultimately show ?case using b'(2) by blast
qed

lemma stitch_loop_pairs:
  "i + length ys \<le> length offs \<Longrightarrow>
     stitch_loop buf offs i ys = stitch_pairs buf (zip (drop i offs) ys)"
proof (induction ys arbitrary: buf i)
  case Nil
  then show ?case by simp
next
  case (Cons y ys)
  then have i: "i < length offs" by simp
  then have d: "drop i offs = offs ! i # drop (Suc i) offs" by (simp add: Cons_nth_drop_Suc)
  show ?case
  proof (cases "setslice buf (offs ! i) y")
    case (Inl e)
    with i d show ?thesis by simp
  next
    case (Inr buf')
    have "Suc i + length ys \<le> length offs" using Cons.prems by simp
    from Cons.IH[OF this, of buf'] Inr i d show ?thesis by simp
  qed
qed

lemma map_snd_files_of: "map snd (files_of data n offs) = map (getslice data) offs"
  by (induction offs arbitrary: n) (simp_all add: files_of_Nil files_of_Cons)

lemma zip_map_same: "zip xs (map f xs) = map (\<lambda>x. (x, f x)) xs"
  by (induction xs) simp_all

lemma reconstruct_identity:
  assumes "\<forall>off \<in> set offs. in_bounds (h, w, d) off" "shape data = (h, w, d)"
    and "\<forall>r < h. \<forall>c < w. covered offs (int r) (int c)"
  shows "\<exists>buf. reconstructed_seg_mask (h, w, d) offs
                  (map (\<lambda>(name, patch). identity_model patch) (files_of data 0 offs)) = Inr buf \<and>
                array_eq buf data"
proof -
  have m: "map (\<lambda>(name, patch). identity_model patch) (files_of data 0 offs) = map (getslice data) offs"
  proof -
    have "(\<lambda>(name, patch). identity_model patch) = (snd :: string \<times> ndarray \<Rightarrow> ndarray)"
      by (auto simp: identity_model_def fun_eq_iff)
    then show ?thesis by (simp only: map_snd_files_of)
  qed
  have "stitch_loop (zeros (h, w, d)) offs 0 (map (getslice data) offs) =
        stitch_pairs (zeros (h, w, d)) (map (\<lambda>off. (off, getslice data off)) offs)"
    using stitch_loop_pairs[of 0 "map (getslice data) offs" offs "zeros (h, w, d)"]
    by (simp add: zip_map_same)
  moreover have "shape (zeros (h, w, d)) = (h, w, d)" by (simp add: zeros_def)
  from stitch_pairs_getslice[OF assms(1) this assms(2)] obtain buf where
    b: "stitch_pairs (zeros (h, w, d)) (map (\<lambda>off. (off, getslice data off)) offs) = Inr buf"
      "shape buf = (h, w, d)"
      "\<forall>r < h. \<forall>c < w. \<forall>k < d. item buf r c k =
              (if covered offs (int r) (int c) then item data r c k
               else item (zeros (h, w, d)) r c k)"
    by blast
  ultimately have "reconstructed_seg_mask (h, w, d) offs (map (getslice data) offs) = Inr buf"
    by (simp add: reconstructed_seg_mask_def)
  moreover have "array_eq buf data"
    using b(2,3) assms(2,3) by (simp add: array_eq_def)
  ultimately show ?thesis using m by auto
qed

lemma round_trip_general:
  assumes "shape data = (h, w, d)" "1 \<le> h" "1 \<le> w" "1 \<le> d" "1 \<le> p"
    and "valid_policy overlap stride"
    and gap: "case stride of
               None \<Rightarrow> True
             | Some s \<Rightarrow>
                 min s (int h - min p (int h)) \<le> min p (int h) \<and>
                 min s (int w - min p (int w)) \<le> min p (int w)"
  shows "\<exists>files offs buf.
           extract_patches data p overlap stride = Inr (files, offs, (h, w, d)) \<and>
           reconstructed_seg_mask (h, w, d) offs
             (map (\<lambda>(name, patch). identity_model patch) files) = Inr buf \<and>
           array_eq buf data"
proof -
  from extract_patches_valid[OF assms(1-6)] obtain offs where
    e: "extract_patches data p overlap stride = Inr (files_of data 0 offs, offs, (h, w, d))"
    and i: "indices_of (extract_patches data p overlap stride) = Inr offs"
    by blast
  obtain sX sY sZ where
    st: "step_sizes (window_sizes (h, w, d) p) overlap stride = (sX, sY, sZ)"
    by (metis prod_cases3)
  have s: "1 \<le> sX \<and> 1 \<le> sY \<and> 1 \<le> sZ" using valid_window_steps[OF assms(2-6) st] .
  have wpos: "1 \<le> min p (int w)" "1 \<le> min p (int h)" using assms by simp_all
  let ?g = "grid (min p (int h)) (min p (int w))
              (append_last (progression (int w - min p (int w)) sX) (int w - min p (int w)))
              (append_last (progression (int h - min p (int h)) sY) (int h - min p (int h)))"
  from i indices_of_valid[OF assms(1-6) st] have offs: "offs = ?g" by simp
  have "\<forall>(yStart, yEnd, xStart, xEnd) \<in> set ?g.
           0 \<le> yStart \<and> yStart < yEnd \<and> yEnd \<le> int h \<and>
           0 \<le> xStart \<and> xStart < xEnd \<and> xEnd \<le> int w \<and>
           yEnd - yStart = min p (int h) \<and> xEnd - xStart = min p (int w)"
    using s wpos by (intro grid_in_bounds) simp_all
  then have ib: "\<forall>off \<in> set offs. in_bounds (h, w, d) off" unfolding offs by auto
  have "(\<forall>y x. 0 \<le> y \<and> y < int h \<and> 0 \<le> x \<and> x < int w \<longrightarrow> covered ?g y x) \<longleftrightarrow>
      min sY (int h - min p (int h)) \<le> min p (int h) \<and>
      min sX (int w - min p (int w)) \<le> min p (int w)"
    using s wpos by (intro grid_cover_iff) simp_all
  with gap gap_policy[OF assms(2-6) st]
  have "\<forall>y x. 0 \<le> y \<and> y < int h \<and> 0 \<le> x \<and> x < int w \<longrightarrow> covered offs y x"
    unfolding offs by simp
  then have cov: "\<forall>r < h. \<forall>c < w. covered offs (int r) (int c)" by simp
  from reconstruct_identity[OF ib assms(1) cov] e show ?thesis by blast
qed

lemma round_trip_write_order:
  assumes "shape data = (h, w, d)" "1 \<le> h" "1 \<le> w" "1 \<le> d" "1 \<le> patchsize"
  shows "(\<exists>files offs buf.
           extract_patches data patchsize None (Some patchsize) = Inr (files, offs, (h, w, d)) \<and>
           reconstructed_seg_mask (h, w, d) offs
             (map (\<lambda>(name, patch). identity_model patch) files) = Inr buf \<and>
           array_eq buf data) \<and>
         (\<exists>files offs buf.
           extract_patches data patchsize (Some 0) None = Inr (files, offs, (h, w, d)) \<and>
           reconstructed_seg_mask (h, w, d) offs
             (map (\<lambda>(name, patch). identity_model patch) files) = Inr buf \<and>
           array_eq buf data)"
proof
  have v: "valid_policy None (Some patchsize)" using assms(5) by (simp add: valid_policy_def)
  have g: "case Some patchsize of
               None \<Rightarrow> True
             | Some s \<Rightarrow>
                 min s (int h - min patchsize (int h)) \<le> min patchsize (int h) \<and>
                 min s (int w - min patchsize (int w)) \<le> min patchsize (int w)"
    using assms by (simp add: min_def)
  show "\<exists>files offs buf.
           extract_patches data patchsize None (Some patchsize) = Inr (files, offs, (h, w, d)) \<and>
           reconstructed_seg_mask (h, w, d) offs
             (map (\<lambda>(name, patch). identity_model patch) files) = Inr buf \<and>
           array_eq buf data"
    by (rule round_trip_general[OF assms v g])
next
  have v: "valid_policy (Some 0) None" by (simp add: valid_policy_def)
  have g: "case None :: int option of
               None \<Rightarrow> True
             | Some s \<Rightarrow>
                 min s (int h - min patchsize (int h)) \<le> min patchsize (int h) \<and>
                 min s (int w - min patchsize (int w)) \<le> min patchsize (int w)"
    by simp
  show "\<exists>files offs buf.
           extract_patches data patchsize (Some 0) None = Inr (files, offs, (h, w, d)) \<and>
           reconstructed_seg_mask (h, w, d) offs
             (map (\<lambda>(name, patch). identity_model patch) files) = Inr buf \<and>
           array_eq buf data"
    by (rule round_trip_general[OF assms v g])
qed

section \<open>Lemmas about the file names\<close>

lemma str_nat_2: "str_nat 2 = ''2''"
  by (simp add: str_nat.simps[of 2] digit_char_def)

lemma str_nat_10: "str_nat 10 = ''10''"
  by (simp add: str_nat.simps[of 10] str_nat.simps[of 1] str_nat.simps[of "Suc 0"] digit_char_def)

lemma patch_name_10_less_2: "patch_name 10 < patch_name 2"
  by (simp add: patch_name_def str_nat_2 str_nat_10)

lemma map_fst_files_of: "map fst (files_of data n offs) = map patch_name [n..<n + length offs]"
proof (induction offs arbitrary: n)
  case Nil
  then show ?case by (simp add: files_of_Nil)
next
  case (Cons off offs)
  have "[n..<n + length (off # offs)] = n # [Suc n..<Suc n + length offs]"
    using upt_conv_Cons[of n "n + length (off # offs)"] by simp
  then show ?case by (simp add: files_of_Cons Cons.IH)
qed

lemma nth_names: "i < n \<Longrightarrow> map patch_name [0..<n] ! i = patch_name i"
  by simp

lemma names_not_sorted:
  assumes "10 < n"
  shows "\<not> sorted (map patch_name [0..<n])"
proof
  assume "sorted (map patch_name [0..<n])"
  then have le: "map patch_name [0..<n] ! 2 \<le> map patch_name [0..<n] ! 10"
    using assms by (intro sorted_nth_mono) simp_all
  have e2: "map patch_name [0..<n] ! 2 = patch_name 2"
    by (rule nth_names) (use assms in simp)
  have e10: "map patch_name [0..<n] ! 10 = patch_name 10"
    by (rule nth_names) (use assms in simp)
  from le have "patch_name 2 \<le> patch_name 10" unfolding e2 e10 .
  with patch_name_10_less_2 show False by simp
qed

lemma sorted_listdir_differs:
  assumes "10 < n" "mset listing = mset (map patch_name [0..<n])"
  shows "sorted_listdir listing \<noteq> map patch_name [0..<n]"
proof
  assume "sorted_listdir listing = map patch_name [0..<n]"
  then have "sorted (map patch_name [0..<n])"
    unfolding sorted_listdir_def by (metis sorted_sort)
  with names_not_sorted[OF assms(1)] show False by simp
qed

lemma eleven_patches:
  "extract_patches (zeros (1, 11, 1)) 1 None (Some 1) =
     Inr (files_of (zeros (1, 11, 1)) 0 [(0, 1, 0, 1), (0, 1, 1, 2), (0, 1, 2, 3), (0, 1, 3, 4), (0, 1, 4, 5), (0, 1, 5, 6), (0, 1, 6, 7), (0, 1, 7, 8), (0, 1, 8, 9), (0, 1, 9, 10), (0, 1, 10, 11)],
          [(0, 1, 0, 1), (0, 1, 1, 2), (0, 1, 2, 3), (0, 1, 3, 4), (0, 1, 4, 5), (0, 1, 5, 6), (0, 1, 6, 7), (0, 1, 7, 8), (0, 1, 8, 9), (0, 1, 9, 10), (0, 1, 10, 11)], (1, 11, 1))"
  by (simp add: extract_patches_eq Let_def zeros_def start_offsets_def window_sizes_def
        step_sizes_def axis_offsets_def py_range_def range_len_def append_last_def grid_def
        upt_rec patch_eval)

lemma ramp11_patches:
  "extract_patches ramp11 1 None (Some 1) =
     Inr (files_of ramp11 0 [(0, 1, 0, 1), (0, 1, 1, 2), (0, 1, 2, 3), (0, 1, 3, 4), (0, 1, 4, 5), (0, 1, 5, 6), (0, 1, 6, 7), (0, 1, 7, 8), (0, 1, 8, 9), (0, 1, 9, 10), (0, 1, 10, 11)],
          [(0, 1, 0, 1), (0, 1, 1, 2), (0, 1, 2, 3), (0, 1, 3, 4), (0, 1, 4, 5), (0, 1, 5, 6), (0, 1, 6, 7), (0, 1, 7, 8), (0, 1, 8, 9), (0, 1, 9, 10), (0, 1, 10, 11)], (1, 11, 3))"
  by (simp add: extract_patches_eq ramp11_def start_offsets_def window_sizes_def
        step_sizes_def axis_offsets_def py_range_def range_len_def append_last_def grid_def
        upt_rec patch_eval)

lemma upt_11: "[0..<11] = [0, 1, 2, 3, 4, 5, 6, 7, 8, 9, 10]"
  by (simp add: upt_rec)

lemma ramp11_files:
  "files_of ramp11 0 [(0, 1, 0, 1), (0, 1, 1, 2), (0, 1, 2, 3), (0, 1, 3, 4), (0, 1, 4, 5), (0, 1, 5, 6), (0, 1, 6, 7), (0, 1, 7, 8), (0, 1, 8, 9), (0, 1, 9, 10), (0, 1, 10, 11)] =
     [(''patch_0.png'', getslice ramp11 (0, 1, 0, 1)),
         (''patch_1.png'', getslice ramp11 (0, 1, 1, 2)),
         (''patch_2.png'', getslice ramp11 (0, 1, 2, 3)),
         (''patch_3.png'', getslice ramp11 (0, 1, 3, 4)),
         (''patch_4.png'', getslice ramp11 (0, 1, 4, 5)),
         (''patch_5.png'', getslice ramp11 (0, 1, 5, 6)),
         (''patch_6.png'', getslice ramp11 (0, 1, 6, 7)),
         (''patch_7.png'', getslice ramp11 (0, 1, 7, 8)),
         (''patch_8.png'', getslice ramp11 (0, 1, 8, 9)),
         (''patch_9.png'', getslice ramp11 (0, 1, 9, 10)),
         (''patch_10.png'', getslice ramp11 (0, 1, 10, 11))]"
  by (simp add: files_of_def upt_11 patch_name_def str_nat.simps digit_char_def)

section \<open>The claims\<close>

text \<open>
  Claim C1 (coverage), as the code has it. For an array of shape \<open>(h, w, d)\<close> with
  all three at least 1, a patch size of at least 1 and a valid policy, \<open>extract_patches\<close>
  returns an offset list, and every coordinate \<open>(y, x)\<close> with \<open>0 \<le> y < h\<close> and
  \<open>0 \<le> x < w\<close> lies in one of its windows exactly when the policy is an overlap
  fraction or the default, or is a stride \<open>s\<close> with
  \<open>min s (h - windowSizeY) \<le> windowSizeY\<close> and \<open>min s (w - windowSizeX) \<le> windowSizeX\<close>.
  A stride no larger than the window size on both axes satisfies the condition.
\<close>

theorem coverage_iff_gap:
  assumes "shape data = (h, w, d)" "1 \<le> h" "1 \<le> w" "1 \<le> d" "1 \<le> patchsize"
    and "valid_policy overlap stride"
  shows "\<exists>offs. indices_of (extract_patches data patchsize overlap stride) = Inr offs \<and>
           ((\<forall>y x. 0 \<le> y \<and> y < int h \<and> 0 \<le> x \<and> x < int w \<longrightarrow> covered offs y x) \<longleftrightarrow>
            (case stride of
               None \<Rightarrow> True
             | Some s \<Rightarrow>
                 min s (int h - min patchsize (int h)) \<le> min patchsize (int h) \<and>
                 min s (int w - min patchsize (int w)) \<le> min patchsize (int w)))"
proof -
  obtain sX sY sZ where
    st: "step_sizes (window_sizes (h, w, d) patchsize) overlap stride = (sX, sY, sZ)"
    by (metis prod_cases3)
  have s: "1 \<le> sX \<and> 1 \<le> sY \<and> 1 \<le> sZ" using valid_window_steps[OF assms(2-6) st] .
  have "1 \<le> min patchsize (int w)" "1 \<le> min patchsize (int h)" using assms by simp_all
  with s have cov: "(\<forall>y x. 0 \<le> y \<and> y < int h \<and> 0 \<le> x \<and> x < int w \<longrightarrow>
        covered (grid (min patchsize (int h)) (min patchsize (int w))
                   (append_last (progression (int w - min patchsize (int w)) sX)
                      (int w - min patchsize (int w)))
                   (append_last (progression (int h - min patchsize (int h)) sY)
                      (int h - min patchsize (int h)))) y x) \<longleftrightarrow>
      min sY (int h - min patchsize (int h)) \<le> min patchsize (int h) \<and>
      min sX (int w - min patchsize (int w)) \<le> min patchsize (int w)"
    by (intro grid_cover_iff) simp_all
  show ?thesis
    unfolding indices_of_valid[OF assms st]
    using cov gap_policy[OF assms(2-6) st] by simp
qed

text \<open>
  The theorem at a 1 by 4 image with patch size 1: overlap 0 covers it, stride 2 does not.
\<close>

theorem coverage_iff_gap_witness:
  "shape (zeros (1, 4, 1)) = (1, 4, 1) \<and> valid_policy (Some 0) None \<and>
   (\<exists>offs. indices_of (extract_patches (zeros (1, 4, 1)) 1 (Some 0) None) = Inr offs \<and>
      (\<forall>y x. 0 \<le> y \<and> y < int 1 \<and> 0 \<le> x \<and> x < int 4 \<longrightarrow> covered offs y x)) \<and>
   valid_policy None (Some 2) \<and>
   (\<exists>offs. indices_of (extract_patches (zeros (1, 4, 1)) 1 None (Some 2)) = Inr offs \<and>
      \<not> (\<forall>y x. 0 \<le> y \<and> y < int 1 \<and> 0 \<le> x \<and> x < int 4 \<longrightarrow> covered offs y x))"
proof -
  have h: "shape (zeros (1, 4, 1)) = (1, 4, 1)" by (simp add: zeros_def)
  have v: "valid_policy (Some 0) None" by (simp add: valid_policy_def)
  have v': "valid_policy None (Some 2)" by (simp add: valid_policy_def)
  have n: "(1::nat) \<le> 1" "(1::nat) \<le> 4" "(1::nat) \<le> 1" "(1::int) \<le> 1" by simp_all
  have c: "\<exists>offs. indices_of (extract_patches (zeros (1, 4, 1)) 1 (Some 0) None) = Inr offs \<and>
      (\<forall>y x. 0 \<le> y \<and> y < int 1 \<and> 0 \<le> x \<and> x < int 4 \<longrightarrow> covered offs y x)"
    using coverage_iff_gap[OF h n v] by simp
  have c': "\<exists>offs. indices_of (extract_patches (zeros (1, 4, 1)) 1 None (Some 2)) = Inr offs \<and>
      \<not> (\<forall>y x. 0 \<le> y \<and> y < int 1 \<and> 0 \<le> x \<and> x < int 4 \<longrightarrow> covered offs y x)"
    using coverage_iff_gap[OF h n v'] by simp
  from h v c v' c' show ?thesis by (intro conjI)
qed

text \<open>
  Claim C1 as stated fails for a stride larger than the window: on a 1 by 4 image with
  patch size 1 and stride 2 the X offsets are \<open>[0, 2, 3]\<close>, and the coordinate
  \<open>(0, 1)\<close> lies in no window.
\<close>

theorem coverage_counterexample:
  "valid_policy None (Some 2) \<and>
   indices_of (extract_patches (zeros (1, 4, 1)) 1 None (Some 2)) =
     Inr [(0, 1, 0, 1), (0, 1, 2, 3), (0, 1, 3, 4)] \<and>
   \<not> covered [(0, 1, 0, 1), (0, 1, 2, 3), (0, 1, 3, 4)] 0 1"
  by (simp add: valid_policy_def indices_of_extract zeros_def start_offsets_def window_sizes_def
        step_sizes_def axis_offsets_def py_range_def range_len_def append_last_def grid_def
        upt_rec patch_eval)

text \<open>
  Claim C2 (round trip without overlap) says that tiling with stride equal to the patch
  size, the identity model and the reconstruction give back the input. The tiler and the
  assignment loop have this property when the results are taken in the order the patches
  were written (\<open>round_trip_write_order\<close>). The script takes them in the order of the
  sorted file names, and pairs the \<open>i\<close>-th of them with \<open>indices[i]\<close>. On a 1 by 11
  by 3 image with values \<open>100 + x\<close>, patch size 1 and stride 1, there are 11 patches,
  \<open>patch_10.png\<close> is the third file consumed, and the rebuilt image has 110 at
  \<open>x = 2\<close>, where the input has 102.
\<close>

theorem round_trip_sorted_order_fails:
  "extract_patches ramp11 1 None (Some 1) =
     Inr (files_of ramp11 0 [(0, 1, 0, 1), (0, 1, 1, 2), (0, 1, 2, 3), (0, 1, 3, 4), (0, 1, 4, 5), (0, 1, 5, 6), (0, 1, 6, 7), (0, 1, 7, 8), (0, 1, 8, 9), (0, 1, 9, 10), (0, 1, 10, 11)],
          [(0, 1, 0, 1), (0, 1, 1, 2), (0, 1, 2, 3), (0, 1, 3, 4), (0, 1, 4, 5), (0, 1, 5, 6), (0, 1, 6, 7), (0, 1, 7, 8), (0, 1, 8, 9), (0, 1, 9, 10), (0, 1, 10, 11)], (1, 11, 3)) \<and>
   map fst (consumed_files (files_of ramp11 0 [(0, 1, 0, 1), (0, 1, 1, 2), (0, 1, 2, 3), (0, 1, 3, 4), (0, 1, 4, 5), (0, 1, 5, 6), (0, 1, 6, 7), (0, 1, 7, 8), (0, 1, 8, 9), (0, 1, 9, 10), (0, 1, 10, 11)])) =
     [''patch_0.png'', ''patch_1.png'', ''patch_10.png'', ''patch_2.png'', ''patch_3.png'',
      ''patch_4.png'', ''patch_5.png'', ''patch_6.png'', ''patch_7.png'', ''patch_8.png'',
      ''patch_9.png''] \<and>
   (\<exists>buf. script_reconstruct identity_model (files_of ramp11 0 [(0, 1, 0, 1), (0, 1, 1, 2), (0, 1, 2, 3), (0, 1, 3, 4), (0, 1, 4, 5), (0, 1, 5, 6), (0, 1, 6, 7), (0, 1, 7, 8), (0, 1, 8, 9), (0, 1, 9, 10), (0, 1, 10, 11)])
            [(0, 1, 0, 1), (0, 1, 1, 2), (0, 1, 2, 3), (0, 1, 3, 4), (0, 1, 4, 5), (0, 1, 5, 6), (0, 1, 6, 7), (0, 1, 7, 8), (0, 1, 8, 9), (0, 1, 9, 10), (0, 1, 10, 11)] (1, 11, 3) = Inr buf \<and>
          item buf 0 2 0 = 110 \<and> item ramp11 0 2 0 = 102)"
proof -
  let ?L = "[(0, 1, 0, 1), (0, 1, 1, 2), (0, 1, 2, 3), (0, 1, 3, 4), (0, 1, 4, 5), (0, 1, 5, 6), (0, 1, 6, 7), (0, 1, 7, 8), (0, 1, 8, 9), (0, 1, 9, 10), (0, 1, 10, 11)] :: offset list"
  have e: "extract_patches ramp11 1 None (Some 1) = Inr (files_of ramp11 0 ?L, ?L, (1, 11, 3))"
    by (rule ramp11_patches)
  have c: "consumed_files (files_of ramp11 0 ?L) = [(''patch_0.png'', getslice ramp11 (0, 1, 0, 1)),
         (''patch_1.png'', getslice ramp11 (0, 1, 1, 2)),
         (''patch_10.png'', getslice ramp11 (0, 1, 10, 11)),
         (''patch_2.png'', getslice ramp11 (0, 1, 2, 3)),
         (''patch_3.png'', getslice ramp11 (0, 1, 3, 4)),
         (''patch_4.png'', getslice ramp11 (0, 1, 4, 5)),
         (''patch_5.png'', getslice ramp11 (0, 1, 5, 6)),
         (''patch_6.png'', getslice ramp11 (0, 1, 6, 7)),
         (''patch_7.png'', getslice ramp11 (0, 1, 7, 8)),
         (''patch_8.png'', getslice ramp11 (0, 1, 8, 9)),
         (''patch_9.png'', getslice ramp11 (0, 1, 9, 10))]"
    by (simp add: consumed_files_def ramp11_files)
  have n: "map fst (consumed_files (files_of ramp11 0 ?L)) =
     [''patch_0.png'', ''patch_1.png'', ''patch_10.png'', ''patch_2.png'', ''patch_3.png'',
      ''patch_4.png'', ''patch_5.png'', ''patch_6.png'', ''patch_7.png'', ''patch_8.png'',
      ''patch_9.png'']"
    unfolding c by simp
  have r: "\<exists>buf. script_reconstruct identity_model (files_of ramp11 0 ?L) ?L (1, 11, 3) = Inr buf \<and>
          item buf 0 2 0 = 110 \<and> item ramp11 0 2 0 = 102"
    unfolding script_reconstruct_def c
    by (simp add: reconstructed_seg_mask_def identity_model_def zeros_def setslice_def
          getslice_def slice_bounds_def clip_index_def broadcastable_def ramp11_def)
  from e n r show ?thesis by (intro conjI)
qed

text \<open>
  Claim C3 (bounds and window size). For an array of shape \<open>(h, w, d)\<close> with all three
  at least 1, a patch size of at least 1 and a valid policy, every offset
  \<open>(yStart, yEnd, xStart, xEnd)\<close> that \<open>extract_patches\<close> returns has
  \<open>0 \<le> yStart < yEnd \<le> h\<close>, \<open>0 \<le> xStart < xEnd \<le> w\<close>,
  \<open>yEnd - yStart = min patchsize h\<close> and \<open>xEnd - xStart = min patchsize w\<close>.
\<close>

theorem offsets_in_bounds:
  assumes "shape data = (h, w, d)" "1 \<le> h" "1 \<le> w" "1 \<le> d" "1 \<le> patchsize"
    and "valid_policy overlap stride"
  shows "\<exists>offs. indices_of (extract_patches data patchsize overlap stride) = Inr offs \<and>
           (\<forall>(yStart, yEnd, xStart, xEnd) \<in> set offs.
              0 \<le> yStart \<and> yStart < yEnd \<and> yEnd \<le> int h \<and>
              0 \<le> xStart \<and> xStart < xEnd \<and> xEnd \<le> int w \<and>
              yEnd - yStart = min patchsize (int h) \<and> xEnd - xStart = min patchsize (int w))"
proof -
  obtain sX sY sZ where
    st: "step_sizes (window_sizes (h, w, d) patchsize) overlap stride = (sX, sY, sZ)"
    by (metis prod_cases3)
  have s: "1 \<le> sX \<and> 1 \<le> sY \<and> 1 \<le> sZ" using valid_window_steps[OF assms(2-6) st] .
  have "1 \<le> min patchsize (int w)" "1 \<le> min patchsize (int h)" using assms by simp_all
  with s have "\<forall>(yStart, yEnd, xStart, xEnd) \<in>
            set (grid (min patchsize (int h)) (min patchsize (int w))
                   (append_last (progression (int w - min patchsize (int w)) sX)
                      (int w - min patchsize (int w)))
                   (append_last (progression (int h - min patchsize (int h)) sY)
                      (int h - min patchsize (int h)))).
           0 \<le> yStart \<and> yStart < yEnd \<and> yEnd \<le> int h \<and>
           0 \<le> xStart \<and> xStart < xEnd \<and> xEnd \<le> int w \<and>
           yEnd - yStart = min patchsize (int h) \<and> xEnd - xStart = min patchsize (int w)"
    by (intro grid_in_bounds) simp_all
  with indices_of_valid[OF assms st] show ?thesis by blast
qed

text \<open>
  The theorem at a 5 by 7 by 3 array, patch size 3, overlap one half.
\<close>

theorem offsets_in_bounds_witness:
  "shape (zeros (5, 7, 3)) = (5, 7, 3) \<and> valid_policy (Some (1 / 2)) None \<and>
   (\<exists>offs. indices_of (extract_patches (zeros (5, 7, 3)) 3 (Some (1 / 2)) None) = Inr offs \<and>
           (\<forall>(yStart, yEnd, xStart, xEnd) \<in> set offs.
              0 \<le> yStart \<and> yStart < yEnd \<and> yEnd \<le> int 5 \<and>
              0 \<le> xStart \<and> xStart < xEnd \<and> xEnd \<le> int 7 \<and>
              yEnd - yStart = min 3 (int 5) \<and> xEnd - xStart = min 3 (int 7)))"
proof -
  have h: "shape (zeros (5, 7, 3)) = (5, 7, 3)" by (simp add: zeros_def)
  have v: "valid_policy (Some (1 / 2)) None" by (simp add: valid_policy_def)
  have n: "(1::nat) \<le> 5" "(1::nat) \<le> 7" "(1::nat) \<le> 3" "(1::int) \<le> 3" by simp_all
  note c = offsets_in_bounds[OF h n v]
  from h v c show ?thesis by (intro conjI)
qed

text \<open>
  Claim C4 (edge exactness). For a valid input, the X and the Y start sequences are not
  empty, the X sequence ends with \<open>w - min patchsize w\<close> and the Y sequence with
  \<open>h - min patchsize h\<close>; each is the arithmetic progression that \<open>range\<close> yields,
  followed by the last value when the progression does not end with it.
\<close>

theorem start_offsets_edge_exact:
  assumes "1 \<le> h" "1 \<le> w" "1 \<le> d" "1 \<le> patchsize" "valid_policy overlap stride"
    and "step_sizes (window_sizes (h, w, d) patchsize) overlap stride = (stepSizeX, stepSizeY, stepSizeZ)"
    and "lastX = int w - min patchsize (int w)" "lastY = int h - min patchsize (int h)"
  shows "\<exists>xOffsets yOffsets zOffsets.
           start_offsets (h, w, d) patchsize overlap stride = Inr (xOffsets, yOffsets, zOffsets) \<and>
           xOffsets \<noteq> [] \<and> last xOffsets = lastX \<and> yOffsets \<noteq> [] \<and> last yOffsets = lastY \<and>
           py_range 0 (lastX + 1) stepSizeX = Inr (progression lastX stepSizeX) \<and>
           py_range 0 (lastY + 1) stepSizeY = Inr (progression lastY stepSizeY) \<and>
           xOffsets = (if last (progression lastX stepSizeX) = lastX then progression lastX stepSizeX
                       else progression lastX stepSizeX @ [lastX]) \<and>
           yOffsets = (if last (progression lastY stepSizeY) = lastY then progression lastY stepSizeY
                       else progression lastY stepSizeY @ [lastY])"
proof -
  have s: "1 \<le> stepSizeX \<and> 1 \<le> stepSizeY \<and> 1 \<le> stepSizeZ"
    using valid_window_steps[OF assms(1-6)] .
  have L: "0 \<le> lastX" "0 \<le> lastY" using assms by simp_all
  have rx: "py_range 0 (lastX + 1) stepSizeX = Inr (progression lastX stepSizeX)"
    using s L by (intro py_range_pos) simp_all
  have ry: "py_range 0 (lastY + 1) stepSizeY = Inr (progression lastY stepSizeY)"
    using s L by (intro py_range_pos) simp_all
  have so: "start_offsets (h, w, d) patchsize overlap stride =
         Inr (append_last (progression lastX stepSizeX) lastX,
              append_last (progression lastY stepSizeY) lastY,
              append_last (progression (int d - min patchsize (int d)) stepSizeZ)
                (int d - min patchsize (int d)))"
    using start_offsets_valid[OF assms(1-6)] assms(7,8) by simp
  show ?thesis
    unfolding so using rx ry
    by (simp add: append_last_nonempty last_append_last append_last_alt progression_nonempty)
qed

text \<open>
  The theorem at the 500 by 500 image with patch size 224 and overlap 0.
\<close>

theorem start_offsets_edge_exact_witness:
  "valid_policy (Some 0) None \<and>
   step_sizes (window_sizes (500, 500, 3) 224) (Some 0) None = (224, 224, 3) \<and>
   (\<exists>xOffsets yOffsets zOffsets.
           start_offsets (500, 500, 3) 224 (Some 0) None = Inr (xOffsets, yOffsets, zOffsets) \<and>
           xOffsets \<noteq> [] \<and> last xOffsets = 276 \<and> yOffsets \<noteq> [] \<and> last yOffsets = 276 \<and>
           py_range 0 (276 + 1) 224 = Inr (progression 276 224) \<and>
           py_range 0 (276 + 1) 224 = Inr (progression 276 224) \<and>
           xOffsets = (if last (progression 276 224) = 276 then progression 276 224
                       else progression 276 224 @ [276]) \<and>
           yOffsets = (if last (progression 276 224) = 276 then progression 276 224
                       else progression 276 224 @ [276]))"
proof -
  have v: "valid_policy (Some 0) None" by (simp add: valid_policy_def)
  have s: "step_sizes (window_sizes (500, 500, 3) 224) (Some 0) None = (224, 224, 3)"
    by (simp add: window_sizes_def step_sizes_def)
  have n: "(1::nat) \<le> 500" "(1::nat) \<le> 500" "(1::nat) \<le> 3" "(1::int) \<le> 224" by simp_all
  have l: "(276::int) = int 500 - min 224 (int 500)" by simp
  note c = start_offsets_edge_exact[OF n v s l l]
  from v s c show ?thesis by (intro conjI)
qed

text \<open>
  Claim C5 (emission order). For a valid input, the offset list has
  \<open>length xOffsets * length yOffsets\<close> elements, and its element number
  \<open>i * length yOffsets + j\<close> is the window that starts at \<open>yOffsets ! j\<close> and
  \<open>xOffsets ! i\<close>: X is the outer loop, Y the inner one.
\<close>

theorem emission_order:
  assumes "shape data = (h, w, d)" "1 \<le> h" "1 \<le> w" "1 \<le> d" "1 \<le> patchsize"
    and "valid_policy overlap stride"
  shows "\<exists>xOffsets yOffsets zOffsets offs.
           start_offsets (h, w, d) patchsize overlap stride = Inr (xOffsets, yOffsets, zOffsets) \<and>
           indices_of (extract_patches data patchsize overlap stride) = Inr offs \<and>
           length offs = length xOffsets * length yOffsets \<and>
           (\<forall>i < length xOffsets. \<forall>j < length yOffsets.
              offs ! (i * length yOffsets + j) =
                (yOffsets ! j, yOffsets ! j + min patchsize (int h),
                 xOffsets ! i, xOffsets ! i + min patchsize (int w)))"
proof -
  obtain sX sY sZ where st: "step_sizes (window_sizes (h, w, d) patchsize) overlap stride = (sX, sY, sZ)"
    by (metis prod_cases3)
  note so = start_offsets_valid[OF assms(2-6) st]
  note ind = indices_of_valid[OF assms st]
  show ?thesis
    unfolding so ind by (simp add: length_grid nth_grid)
qed

text \<open>
  The theorem at a 5 by 7 by 3 array, patch size 3, stride 2.
\<close>

theorem emission_order_witness:
  "shape (zeros (5, 7, 3)) = (5, 7, 3) \<and> valid_policy None (Some 2) \<and>
   (\<exists>xOffsets yOffsets zOffsets offs.
           start_offsets (5, 7, 3) 3 None (Some 2) = Inr (xOffsets, yOffsets, zOffsets) \<and>
           indices_of (extract_patches (zeros (5, 7, 3)) 3 None (Some 2)) = Inr offs \<and>
           length offs = length xOffsets * length yOffsets \<and>
           (\<forall>i < length xOffsets. \<forall>j < length yOffsets.
              offs ! (i * length yOffsets + j) =
                (yOffsets ! j, yOffsets ! j + min 3 (int 5), xOffsets ! i, xOffsets ! i + min 3 (int 7))))"
proof -
  have h: "shape (zeros (5, 7, 3)) = (5, 7, 3)" by (simp add: zeros_def)
  have v: "valid_policy None (Some 2)" by (simp add: valid_policy_def)
  have n: "(1::nat) \<le> 5" "(1::nat) \<le> 7" "(1::nat) \<le> 3" "(1::int) \<le> 3" by simp_all
  note c = emission_order[OF h n v]
  from h v c show ?thesis by (intro conjI)
qed

text \<open>
  Claim C6 (file names without padding). The patch files of a session are named
  \<open>patch_0.png\<close>, \<open>patch_1.png\<close>, and so on, in the order of the offset list. When
  there are more than 10 of them, the sorted listing of the directory is not in that
  order, whatever order \<open>os.listdir\<close> returns: \<open>patch_10.png\<close> sorts before
  \<open>patch_2.png\<close>, and at some position \<open>i\<close> the file consumed is not patch \<open>i\<close>.
\<close>

theorem unpadded_sort_hazard:
  assumes "extract_patches data patchsize overlap stride = Inr (files, offs, shp)"
    and "10 < length offs"
    and "mset listing = mset (map fst files)"
  shows "map fst files = map patch_name [0..<length offs] \<and>
         patch_name 2 = ''patch_2.png'' \<and> patch_name 10 = ''patch_10.png'' \<and>
         patch_name 10 < patch_name 2 \<and>
         length (sorted_listdir listing) = length offs \<and>
         (\<exists>i < length offs. sorted_listdir listing ! i \<noteq> patch_name i)"
proof -
  from assms(1) have f: "files = files_of data 0 offs"
    by (rule extract_patches_Inr)
  then have names: "map fst files = map patch_name [0..<length offs]"
    using map_fst_files_of[of data 0 offs] by simp
  with assms(3) have ms: "mset listing = mset (map patch_name [0..<length offs])" by simp
  have len: "length (sorted_listdir listing) = length offs"
  proof -
    have "length (sort listing) = length listing" by simp
    also have "\<dots> = size (mset listing)" by simp
    also have "\<dots> = length offs" unfolding ms by simp
    finally show ?thesis by (simp add: sorted_listdir_def)
  qed
  have ne: "sorted_listdir listing \<noteq> map patch_name [0..<length offs]"
    using sorted_listdir_differs[OF assms(2) ms] .
  have ex: "\<exists>i < length offs. sorted_listdir listing ! i \<noteq> patch_name i"
  proof (rule ccontr)
    assume "\<not> (\<exists>i < length offs. sorted_listdir listing ! i \<noteq> patch_name i)"
    then have "\<forall>i < length offs. sorted_listdir listing ! i = map patch_name [0..<length offs] ! i"
      by simp
    with len have "sorted_listdir listing = map patch_name [0..<length offs]"
      by (intro nth_equalityI) simp_all
    with ne show False by simp
  qed
  from names len ex patch_name_10_less_2 show ?thesis
    by (simp add: patch_name_def str_nat_2 str_nat_10)
qed

text \<open>
  The theorem at a 1 by 11 image with patch size 1 and stride 1, which has 11 patches.
\<close>

theorem unpadded_sort_hazard_witness:
  "extract_patches (zeros (1, 11, 1)) 1 None (Some 1) =
     Inr (files_of (zeros (1, 11, 1)) 0 [(0, 1, 0, 1), (0, 1, 1, 2), (0, 1, 2, 3), (0, 1, 3, 4), (0, 1, 4, 5), (0, 1, 5, 6), (0, 1, 6, 7), (0, 1, 7, 8), (0, 1, 8, 9), (0, 1, 9, 10), (0, 1, 10, 11)],
          [(0, 1, 0, 1), (0, 1, 1, 2), (0, 1, 2, 3), (0, 1, 3, 4), (0, 1, 4, 5), (0, 1, 5, 6), (0, 1, 6, 7), (0, 1, 7, 8), (0, 1, 8, 9), (0, 1, 9, 10), (0, 1, 10, 11)], (1, 11, 1)) \<and>
   10 < length [(0, 1, 0, 1), (0, 1, 1, 2), (0, 1, 2, 3), (0, 1, 3, 4), (0, 1, 4, 5), (0, 1, 5, 6), (0, 1, 6, 7), (0, 1, 7, 8), (0, 1, 8, 9), (0, 1, 9, 10), (0, 1, 10, 11) :: offset] \<and>
   (\<exists>i < length [(0, 1, 0, 1), (0, 1, 1, 2), (0, 1, 2, 3), (0, 1, 3, 4), (0, 1, 4, 5), (0, 1, 5, 6), (0, 1, 6, 7), (0, 1, 7, 8), (0, 1, 8, 9), (0, 1, 9, 10), (0, 1, 10, 11) :: offset].
      sorted_listdir (map fst (files_of (zeros (1, 11, 1)) 0 [(0, 1, 0, 1), (0, 1, 1, 2), (0, 1, 2, 3), (0, 1, 3, 4), (0, 1, 4, 5), (0, 1, 5, 6), (0, 1, 6, 7), (0, 1, 7, 8), (0, 1, 8, 9), (0, 1, 9, 10), (0, 1, 10, 11)])) ! i \<noteq> patch_name i)"
proof -
  have n: "10 < length [(0, 1, 0, 1), (0, 1, 1, 2), (0, 1, 2, 3), (0, 1, 3, 4), (0, 1, 4, 5), (0, 1, 5, 6), (0, 1, 6, 7), (0, 1, 7, 8), (0, 1, 8, 9), (0, 1, 9, 10), (0, 1, 10, 11) :: offset]" by simp
  have m: "mset (map fst (files_of (zeros (1, 11, 1)) 0 [(0, 1, 0, 1), (0, 1, 1, 2), (0, 1, 2, 3), (0, 1, 3, 4), (0, 1, 4, 5), (0, 1, 5, 6), (0, 1, 6, 7), (0, 1, 7, 8), (0, 1, 8, 9), (0, 1, 9, 10), (0, 1, 10, 11)])) =
           mset (map fst (files_of (zeros (1, 11, 1)) 0 [(0, 1, 0, 1), (0, 1, 1, 2), (0, 1, 2, 3), (0, 1, 3, 4), (0, 1, 4, 5), (0, 1, 5, 6), (0, 1, 6, 7), (0, 1, 7, 8), (0, 1, 8, 9), (0, 1, 9, 10), (0, 1, 10, 11)]))" by simp
  note c = unpadded_sort_hazard[OF eleven_patches n m]
  from eleven_patches n c show ?thesis by blast
qed

text \<open>
  Claim C7 (invalid input fails, valid input succeeds). For an array of shape
  \<open>(h, w, d)\<close>: when the patch size is at most 0 or one of the dimensions is 0, the call
  to \<open>extract_patches\<close> raises, and returns nothing. The exception is the \<open>ValueError\<close>
  of \<open>range\<close> when a step size is 0, and otherwise the \<open>cv2.error\<close> of \<open>cv2.imwrite\<close>,
  since the patch at the last X and Y offsets is empty whatever the step sizes are;
  these are the program's errors for an invalid argument. When the patch size and all
  dimensions are at least 1 and the policy is valid, the call returns.
\<close>

theorem extract_patches_validation:
  assumes "shape data = (h, w, d)"
  shows "(patchsize \<le> 0 \<or> h = 0 \<or> w = 0 \<or> d = 0 \<longrightarrow>
            extract_patches data patchsize overlap stride = Inl ValueError \<or>
            extract_patches data patchsize overlap stride = Inl Cv2Error) \<and>
         (1 \<le> h \<and> 1 \<le> w \<and> 1 \<le> d \<and> 1 \<le> patchsize \<and> valid_policy overlap stride \<longrightarrow>
            (\<exists>files offs. extract_patches data patchsize overlap stride = Inr (files, offs, (h, w, d))))"
proof (intro conjI impI)
  assume inv: "patchsize \<le> 0 \<or> h = 0 \<or> w = 0 \<or> d = 0"
  show "extract_patches data patchsize overlap stride = Inl ValueError \<or>
        extract_patches data patchsize overlap stride = Inl Cv2Error"
  proof (cases "start_offsets (h, w, d) patchsize overlap stride")
    case (Inl e)
    then have "e = ValueError" by (rule start_offsets_Inl)
    with Inl assms show ?thesis by (simp add: extract_patches_eq)
  next
    case (Inr r)
    obtain xo yo zo where r: "r = (xo, yo, zo)" by (metis prod_cases3)
    from Inr r have l: "xo \<noteq> [] \<and> last xo = int w - min patchsize (int w) \<and>
        yo \<noteq> [] \<and> last yo = int h - min patchsize (int h)"
      by (intro start_offsets_Inr) simp
    have "last xo \<in> set xo" using l by (intro last_in_set) simp
    moreover have "last yo \<in> set yo" using l by (intro last_in_set) simp
    ultimately have "(last xo, last yo) \<in> set xo \<times> set yo" by blast
    then have "(last yo, last yo + min patchsize (int h), last xo, last xo + min patchsize (int w))
        \<in> set (grid (min patchsize (int h)) (min patchsize (int w)) xo yo)"
      unfolding set_grid by (intro image_eqI[where x = "(last xo, last yo)"]) simp_all
    moreover have "empty_image (getslice data
        (last yo, last yo + min patchsize (int h), last xo, last xo + min patchsize (int w)))"
      using invalid_last_patch_empty[OF assms inv] l by simp
    ultimately have "\<not> writable data (grid (min patchsize (int h)) (min patchsize (int w)) xo yo)"
      unfolding writable_def list_all_iff by blast
    with Inr r assms show ?thesis
      by (simp add: extract_patches_eq Let_def window_sizes_def)
  qed
next
  assume v: "1 \<le> h \<and> 1 \<le> w \<and> 1 \<le> d \<and> 1 \<le> patchsize \<and> valid_policy overlap stride"
  then have "\<exists>offs. extract_patches data patchsize overlap stride =
        Inr (files_of data 0 offs, offs, (h, w, d)) \<and>
      indices_of (extract_patches data patchsize overlap stride) = Inr offs"
    using assms by (intro extract_patches_valid) simp_all
  then show "\<exists>files offs. extract_patches data patchsize overlap stride = Inr (files, offs, (h, w, d))"
    by blast
qed

text \<open>
  The theorem at a 1 by 1 by 1 array with patch size 0 and stride 1, where the first
  patch is empty and \<open>cv2.imwrite\<close> raises; with overlap 0, where the step is 0 and
  \<open>range\<close> raises; and at a 2 by 3 by 1 array with patch size 2 and stride 2, where the
  call returns.
\<close>

theorem extract_patches_validation_witness:
  "shape (zeros (1, 1, 1)) = (1, 1, 1) \<and>
   extract_patches (zeros (1, 1, 1)) 0 None (Some 1) = Inl Cv2Error \<and>
   extract_patches (zeros (1, 1, 1)) 0 (Some 0) None = Inl ValueError \<and>
   shape (zeros (2, 3, 1)) = (2, 3, 1) \<and> valid_policy None (Some 2) \<and>
   (\<exists>files offs. extract_patches (zeros (2, 3, 1)) 2 None (Some 2) = Inr (files, offs, (2, 3, 1)))"
proof -
  have h: "shape (zeros (1, 1, 1)) = (1, 1, 1)" by (simp add: zeros_def)
  have h': "shape (zeros (2, 3, 1)) = (2, 3, 1)" by (simp add: zeros_def)
  have v: "valid_policy None (Some 2)" by (simp add: valid_policy_def)
  have a: "extract_patches (zeros (1, 1, 1)) 0 None (Some 1) = Inl ValueError \<or>
           extract_patches (zeros (1, 1, 1)) 0 None (Some 1) = Inl Cv2Error"
    using extract_patches_validation[OF h, of 0 None "Some 1"] by simp
  have a': "extract_patches (zeros (1, 1, 1)) 0 None (Some 1) \<noteq> Inl ValueError"
    by (simp add: extract_patches_eq zeros_def start_offsets_def window_sizes_def
        step_sizes_def axis_offsets_def py_range_def range_len_def append_last_def grid_def
        upt_rec patch_eval)
  have b: "extract_patches (zeros (1, 1, 1)) 0 (Some 0) None = Inl ValueError \<or>
           extract_patches (zeros (1, 1, 1)) 0 (Some 0) None = Inl Cv2Error"
    using extract_patches_validation[OF h, of 0 "Some 0" None] by simp
  have b': "extract_patches (zeros (1, 1, 1)) 0 (Some 0) None \<noteq> Inl Cv2Error"
    by (simp add: extract_patches_eq zeros_def start_offsets_def window_sizes_def
        step_sizes_def axis_offsets_def py_range_def)
  have c: "\<exists>files offs. extract_patches (zeros (2, 3, 1)) 2 None (Some 2) = Inr (files, offs, (2, 3, 1))"
    using extract_patches_validation[OF h', of 2 None "Some 2"] v by simp
  from a a' have a'': "extract_patches (zeros (1, 1, 1)) 0 None (Some 1) = Inl Cv2Error" by blast
  from b b' have b'': "extract_patches (zeros (1, 1, 1)) 0 (Some 0) None = Inl ValueError" by blast
  from h a'' b'' h' v c show ?thesis by (intro conjI)
qed

text \<open>
  Claim C8 (failures of the reconstruction), as the code has it. The loop validates
  nothing itself. It raises exactly when there are more values than offsets
  (\<open>IndexError\<close> from \<open>indices[i]\<close>) or when, at a position present in both lists, numpy
  cannot broadcast the value to the region of the offset (\<open>ValueError\<close>). Fewer values than
  offsets raise nothing. When both lists have the same length, every offset lies inside
  the buffer and every value has the shape of its window, the loop returns a buffer.
\<close>

theorem reconstruct_fails_iff:
  "(isl (reconstructed_seg_mask org_shape indices ys) \<longleftrightarrow>
      length indices < length ys \<or>
      (\<exists>m. m < length ys \<and> m < length indices \<and>
           \<not> broadcastable (shape (ys ! m)) (region_shape org_shape (indices ! m)))) \<and>
   (org_shape = (h, w, d) \<and> length ys = length indices \<and>
    (\<forall>m < length indices. in_bounds org_shape (indices ! m) \<and>
         shape (ys ! m) = window_shape (indices ! m) d) \<longrightarrow>
      (\<exists>buf. reconstructed_seg_mask org_shape indices ys = Inr buf))"
proof -
  have iff: "isl (reconstructed_seg_mask org_shape indices ys) \<longleftrightarrow>
      (\<exists>m < length ys. length indices \<le> m \<or>
           \<not> broadcastable (shape (ys ! m)) (region_shape org_shape (indices ! m)))"
    using stitch_loop_isl[of "zeros org_shape" indices 0 ys]
    by (simp add: reconstructed_seg_mask_def zeros_def)
  have 1: "isl (reconstructed_seg_mask org_shape indices ys) \<longleftrightarrow>
      length indices < length ys \<or>
      (\<exists>m. m < length ys \<and> m < length indices \<and>
           \<not> broadcastable (shape (ys ! m)) (region_shape org_shape (indices ! m)))"
    unfolding iff
  proof
    assume "\<exists>m < length ys. length indices \<le> m \<or>
           \<not> broadcastable (shape (ys ! m)) (region_shape org_shape (indices ! m))"
    then obtain m where m: "m < length ys" "length indices \<le> m \<or>
           \<not> broadcastable (shape (ys ! m)) (region_shape org_shape (indices ! m))" by blast
    show "length indices < length ys \<or>
      (\<exists>m. m < length ys \<and> m < length indices \<and>
           \<not> broadcastable (shape (ys ! m)) (region_shape org_shape (indices ! m)))"
    proof (cases "length indices \<le> m")
      case True
      with m show ?thesis by simp
    next
      case False
      with m show ?thesis by auto
    qed
  next
    assume a: "length indices < length ys \<or>
      (\<exists>m. m < length ys \<and> m < length indices \<and>
           \<not> broadcastable (shape (ys ! m)) (region_shape org_shape (indices ! m)))"
    show "\<exists>m < length ys. length indices \<le> m \<or>
           \<not> broadcastable (shape (ys ! m)) (region_shape org_shape (indices ! m))"
    proof (cases "length indices < length ys")
      case True
      then show ?thesis by (intro exI[of _ "length indices"]) simp
    next
      case False
      with a show ?thesis by auto
    qed
  qed
  have 2: "\<exists>buf. reconstructed_seg_mask org_shape indices ys = Inr buf"
    if h: "org_shape = (h, w, d) \<and> length ys = length indices \<and>
      (\<forall>m < length indices. in_bounds org_shape (indices ! m) \<and>
         shape (ys ! m) = window_shape (indices ! m) d)"
  proof -
    have "\<not> isl (reconstructed_seg_mask org_shape indices ys)"
      unfolding 1 using h by (auto simp: region_shape_in_bounds broadcastable_refl)
    then show ?thesis by (cases "reconstructed_seg_mask org_shape indices ys") auto
  qed
  from 1 2 show ?thesis by blast
qed

text \<open>
  The theorem at a 2 by 3 buffer: two matching values are written; a second value with
  no offset and a value of the wrong width both raise.
\<close>

theorem reconstruct_fails_iff_witness:
  "length [zeros (2, 2, 1), zeros (2, 2, 1)] = length [(0, 2, 0, 2) :: offset, (0, 2, 1, 3)] \<and>
   (\<exists>buf. reconstructed_seg_mask (2, 3, 1) [(0, 2, 0, 2), (0, 2, 1, 3)]
            [zeros (2, 2, 1), zeros (2, 2, 1)] = Inr buf) \<and>
   isl (reconstructed_seg_mask (2, 3, 1) [(0, 2, 0, 2)] [zeros (2, 2, 1), zeros (2, 2, 1)]) \<and>
   isl (reconstructed_seg_mask (2, 3, 1) [(0, 2, 0, 2)] [zeros (2, 3, 1)])"
proof -
  have a: "(2, 3, 1) = (2::nat, 3::nat, 1::nat) \<and>
      length [zeros (2, 2, 1), zeros (2, 2, 1)] = length [(0, 2, 0, 2) :: offset, (0, 2, 1, 3)] \<and>
      (\<forall>m < length [(0, 2, 0, 2) :: offset, (0, 2, 1, 3)].
         in_bounds (2, 3, 1) ([(0, 2, 0, 2), (0, 2, 1, 3)] ! m) \<and>
         shape ([zeros (2, 2, 1), zeros (2, 2, 1)] ! m) = window_shape ([(0, 2, 0, 2), (0, 2, 1, 3)] ! m) 1)"
    by (simp add: zeros_def window_shape_def less_Suc_eq)
  have 1: "\<exists>buf. reconstructed_seg_mask (2, 3, 1) [(0, 2, 0, 2), (0, 2, 1, 3)]
            [zeros (2, 2, 1), zeros (2, 2, 1)] = Inr buf"
    using reconstruct_fails_iff[of "(2, 3, 1)" "[(0, 2, 0, 2), (0, 2, 1, 3)]"
        "[zeros (2, 2, 1), zeros (2, 2, 1)]" 2 3 1] a by blast
  have 2: "isl (reconstructed_seg_mask (2, 3, 1) [(0, 2, 0, 2)] [zeros (2, 2, 1), zeros (2, 2, 1)])"
    using reconstruct_fails_iff[of "(2, 3, 1)" "[(0, 2, 0, 2)]"
        "[zeros (2, 2, 1), zeros (2, 2, 1)]" 2 3 1] by simp
  have 3: "isl (reconstructed_seg_mask (2, 3, 1) [(0, 2, 0, 2)] [zeros (2, 3, 1)])"
    using reconstruct_fails_iff[of "(2, 3, 1)" "[(0, 2, 0, 2)]" "[zeros (2, 3, 1)]" 2 3 1]
    by (simp add: zeros_def region_shape_def slice_bounds_def clip_index_def broadcastable_def)
  from a 1 2 3 show ?thesis by blast
qed

text \<open>
  Claim C8 as stated fails in both directions of its equivalence: an empty sequence of
  values for one offset raises nothing, and neither does a 1 by 1 value for a 2 by 2
  window, which numpy broadcasts.
\<close>

theorem reconstruct_counterexample:
  "length ([] :: ndarray list) \<noteq> length [(0, 1, 0, 1) :: offset] \<and>
   \<not> isl (reconstructed_seg_mask (1, 1, 1) [(0, 1, 0, 1)] []) \<and>
   shape (zeros (1, 1, 1)) = (1, 1, 1) \<and> window_shape (0, 2, 0, 2) 1 = (2, 2, 1) \<and>
   \<not> isl (reconstructed_seg_mask (2, 2, 1) [(0, 2, 0, 2)] [zeros (1, 1, 1)])"
  by (simp add: reconstructed_seg_mask_def zeros_def setslice_def slice_bounds_def clip_index_def
        broadcastable_def window_shape_def)

text \<open>
  Claim C9 (idempotent release). \<open>cleanup\<close> on a fresh instance returns and leaves it
  as it is, with \<open>temp_dir = None\<close>. After \<open>extract_patches\<close> has created its directory,
  and in every state where \<open>temp_dir\<close> is \<open>None\<close> or names an existing directory,
  \<open>cleanup\<close> returns, removes the directory, sets \<open>temp_dir\<close> to \<open>None\<close>, and a
  second \<open>cleanup\<close> right after it returns and changes nothing.
\<close>

theorem cleanup_idempotent:
  "cleanup init fs = Inr (init, fs) \<and> temp_dir init = None \<and> session_inv init fs \<and>
   (path \<noteq> [] \<and> path \<notin> fs \<longrightarrow>
      session_inv (fst (extract_patches_mkdtemp path self fs))
        (snd (extract_patches_mkdtemp path self fs))) \<and>
   (session_inv self fs \<longrightarrow>
      (\<exists>self' fs'. cleanup self fs = Inr (self', fs') \<and> temp_dir self' = None \<and>
         session_inv self' fs' \<and> (\<forall>p. temp_dir self = Some p \<longrightarrow> p \<notin> fs') \<and>
         cleanup self' fs' = Inr (self', fs')))"
proof -
  have 1: "cleanup init fs = Inr (init, fs) \<and> temp_dir init = None \<and> session_inv init fs"
    by (simp add: cleanup_def init_def session_inv_def)
  have 2: "session_inv (fst (extract_patches_mkdtemp path self fs))
        (snd (extract_patches_mkdtemp path self fs))" if "path \<noteq> [] \<and> path \<notin> fs"
    using that by (simp add: extract_patches_mkdtemp_def session_inv_def)
  have 3: "\<exists>self' fs'. cleanup self fs = Inr (self', fs') \<and> temp_dir self' = None \<and>
         session_inv self' fs' \<and> (\<forall>p. temp_dir self = Some p \<longrightarrow> p \<notin> fs') \<and>
         cleanup self' fs' = Inr (self', fs')" if inv: "session_inv self fs"
  proof (cases "temp_dir self")
    case None
    then have "cleanup self fs = Inr (self, fs)" by (simp add: cleanup_def)
    with None inv show ?thesis by simp
  next
    case (Some p)
    with inv have p: "p \<noteq> []" "p \<in> fs" by (simp_all add: session_inv_def)
    then have c: "cleanup self fs = Inr (self\<lparr>temp_dir := None\<rparr>, fs - {p})"
      using Some by (simp add: cleanup_def rmtree_def)
    have "cleanup (self\<lparr>temp_dir := None\<rparr>) (fs - {p}) = Inr (self\<lparr>temp_dir := None\<rparr>, fs - {p})"
      by (simp add: cleanup_def)
    with c Some show ?thesis by (simp add: session_inv_def)
  qed
  from 1 2 3 show ?thesis by blast
qed

text \<open>
  The theorem at an instance whose directory exists, and at a fresh instance.
\<close>

theorem cleanup_idempotent_witness:
  "session_inv (init\<lparr>temp_dir := Some ''/tmp/tmpq1''\<rparr>) {''/tmp/tmpq1''} \<and>
   (\<exists>self' fs'. cleanup (init\<lparr>temp_dir := Some ''/tmp/tmpq1''\<rparr>) {''/tmp/tmpq1''} = Inr (self', fs') \<and>
       temp_dir self' = None \<and> ''/tmp/tmpq1'' \<notin> fs' \<and> cleanup self' fs' = Inr (self', fs')) \<and>
   cleanup init {} = Inr (init, {})"
proof -
  have i: "session_inv (init\<lparr>temp_dir := Some ''/tmp/tmpq1''\<rparr>) {''/tmp/tmpq1''}"
    by (simp add: session_inv_def)
  have c: "\<exists>self' fs'. cleanup (init\<lparr>temp_dir := Some ''/tmp/tmpq1''\<rparr>) {''/tmp/tmpq1''} = Inr (self', fs') \<and>
       temp_dir self' = None \<and> ''/tmp/tmpq1'' \<notin> fs' \<and> cleanup self' fs' = Inr (self', fs')"
    using cleanup_idempotent[of "{''/tmp/tmpq1''}" "[]" "init\<lparr>temp_dir := Some ''/tmp/tmpq1''\<rparr>"] i
    by auto
  have e: "cleanup init {} = Inr (init, {})"
    using cleanup_idempotent[of "{}" "[]" init] by simp
  from i c e show ?thesis by (intro conjI)
qed

text \<open>
  Claim C10 (stride before overlap). When both \<open>stride\<close> and \<open>overlap\<close> are given,
  every step size is the stride, and \<open>extract_patches\<close> returns what it returns
  when only \<open>stride\<close> is given.
\<close>

theorem stride_precedence:
  "step_sizes ws (Some overlap) (Some stride) = (stride, stride, stride) \<and>
   extract_patches data patchsize (Some overlap) (Some stride) =
     extract_patches data patchsize None (Some stride)"
  by (simp add: extract_patches_def start_offsets_def step_sizes_def split: prod.splits)

end
